theory Spec2Isabelle
  imports Main
begin

section \<open>POML to VFC conversion: the model of \<open>POML2VFC.py\<close>\<close>

text \<open>
  The development embeds class \<open>POMLToVFCParser\<close> of \<open>src/POML2VFC.py\<close>.
  Python strings are modelled as \<open>string\<close>, one \<open>char\<close> per code point, so the
  model covers texts whose code points are below 256. The two calls that leave the
  repository are inputs of the model: \<open>ET.fromstring\<close> is a function from the text
  to either the message of the \<open>ParseError\<close> it raises or the root element, and
  \<open>datetime.now().strftime(...)\<close> is the string it returns. A line break is the
  character \<open>\n\<close> (code point 10), the one the code tests for and splits on. The
  interpreter's recursion limit is not modelled: the visitor recurses to any depth.
\<close>

subsection \<open>Python string operations used by the converter\<close>

text \<open>\<open>str.isspace\<close> on one code point below 256: the characters \<open>str.strip()\<close> removes.\<close>

definition isspace :: "char \<Rightarrow> bool" where
  "isspace c = (c \<in> set [CHR 0x09, CHR 0x0A, CHR 0x0B, CHR 0x0C, CHR 0x0D,
                           CHR 0x1C, CHR 0x1D, CHR 0x1E, CHR 0x1F, CHR 0x20,
                           CHR 0x85, CHR 0xA0])"

text \<open>\<open>str.strip()\<close> without argument.\<close>

definition strip :: "string \<Rightarrow> string" where
  "strip s = rev (dropWhile isspace (rev (dropWhile isspace s)))"

text \<open>\<open>str.lower()\<close>: the upper-case letters below 256 are A-Z and 0xC0-0xDE without 0xD7.\<close>

definition lower_char :: "char \<Rightarrow> char" where
  "lower_char c =
     (let n = (of_char c :: nat) in
      if (65 \<le> n \<and> n \<le> 90) \<or> (192 \<le> n \<and> n \<le> 222 \<and> n \<noteq> 215)
      then char_of (n + 32) else c)"

definition lower :: "string \<Rightarrow> string" where
  "lower s = map lower_char s"

text \<open>\<open>s.split(sep)\<close> for a one-character separator; the result is never empty.\<close>

fun split_on :: "char \<Rightarrow> string \<Rightarrow> string list" where
  "split_on sep [] = [[]]"
| "split_on sep (c # cs) =
     (if c = sep then [] # split_on sep cs
      else (case split_on sep cs of
              [] \<Rightarrow> [[c]]
            | l # ls \<Rightarrow> (c # l) # ls))"

text \<open>\<open>sep.join(xs)\<close>.\<close>

fun join :: "string \<Rightarrow> string list \<Rightarrow> string" where
  "join sep [] = []"
| "join sep [x] = x"
| "join sep (x # y # ys) = x @ sep @ join sep (y # ys)"

subsection \<open>Elements\<close>

text \<open>
  An \<open>xml.etree.ElementTree.Element\<close>: its tag, its attribute dictionary, its text
  (\<open>None\<close> when absent; the selector is \<open>text'\<close>) and its child elements in
  document order.
\<close>

datatype element =
  Element (tag: string) (attrib: "string \<rightharpoonup> string") (text': "string option")
          (children: "element list")

text \<open>\<open>element.get(key, default)\<close>.\<close>

definition get :: "(string \<rightharpoonup> string) \<Rightarrow> string \<Rightarrow> string \<Rightarrow> string" where
  "get attrs key dflt = (case attrs key of None \<Rightarrow> dflt | Some v \<Rightarrow> v)"

text \<open>The expression \<open>element.text.strip() if element.text else ''\<close>.\<close>

definition stripped_text :: "string option \<Rightarrow> string" where
  "stripped_text t = (case t of None \<Rightarrow> [] | Some s \<Rightarrow> if s = [] then [] else strip s)"

subsection \<open>Errors and the converter's state\<close>

datatype error = IndexError | ValueError string

record parser =
  vfc_lines :: "string list"
  indent_level :: int

text \<open>\<open>__init__\<close>.\<close>

definition init :: parser where
  "init = \<lparr>vfc_lines = [], indent_level = 0\<rparr>"

type_synonym xml_parser = "string \<Rightarrow> string + element"

subsection \<open>The element visitor\<close>

text \<open>
  The visitor appends to \<open>self.vfc_lines\<close>; the model passes the buffer and returns it
  with the exception raised, if any (\<open>None\<close>: the call returned), so that the lines
  appended before a raise stay in the buffer as they do in the object.
\<close>

text \<open>
  The loop \<open>for line in lines[1:]\<close> of the \<open>let\<close> branch; \<open>rest\<close> is the slice.
\<close>

fun set_rest :: "string list \<Rightarrow> string list \<Rightarrow> string list" where
  "set_rest [] buf = buf"
| "set_rest (line # rest) buf =
     (let line' = strip line in
      if line' \<noteq> [] \<and> line' \<noteq> '']''
      then set_rest rest (buf @ [''set('' @ line' @ '');''])
      else set_rest rest buf)"

text \<open>
  The \<open>let\<close> branch of \<open>_process_element\<close> (source lines 57 to 83), after the two
  attribute lookups. \<open>lines[0]\<close> raises \<open>IndexError\<close> on an empty list;
  \<open>lines[-1]\<close> is reached only behind it.
\<close>

definition process_let :: "string \<Rightarrow> string \<Rightarrow> string list \<Rightarrow> error option \<times> string list" where
  "process_let name val buf =
     (if CHR 0x0A \<in> set val then
        (let lines = split_on (CHR 0x0A) (strip val) in
         case lines of
           [] \<Rightarrow> (Some IndexError, buf)
         | l0 # _ \<Rightarrow>
             (let first_line = strip l0;
                  buf1 = buf @ [''set(name=\"'' @ name @ ''\" value=\"'' @ first_line @ ''\");''];
                  buf2 = set_rest (tl lines) buf1;
                  buf3 = (if strip (last lines) = '']'' then buf2 @ [''set(]\");''] else buf2)
              in (None, buf3 @ [''end();'', ''''])))
      else (None, buf @ [''set(name=\"'' @ name @ ''\" value=\"'' @ val @ ''\");'',
                         ''end();'', '''']))"

text \<open>
  \<open>_process_element\<close>, with the loop \<open>for child in element\<close> as \<open>process_children\<close>:
  a raise in a child ends the loop and the enclosing calls.
\<close>

fun process_element :: "element \<Rightarrow> string list \<Rightarrow> error option \<times> string list"
  and process_children :: "element list \<Rightarrow> string list \<Rightarrow> error option \<times> string list"
where
  "process_element (Element tg attrs txt cs) buf =
     (if lower tg = ''poml'' then process_children cs buf
      else if lower tg = ''let'' then
        process_let (get attrs ''name'' '''') (get attrs ''value'' '''') buf
      else if lower tg = ''task'' then
        (None, buf @ [''input('' @ stripped_text txt @ '');''])
      else if lower tg = ''for'' then
        (case process_children cs (buf @ [''loop(for each);'']) of
           (None, buf') \<Rightarrow> (None, buf' @ [''lend();''])
         | (Some err, buf') \<Rightarrow> (Some err, buf'))
      else if lower tg = ''if'' then
        process_children cs
          (buf @ [''branch(if  condition=\"'' @ get attrs ''condition'' '''' @ ''\");'',
                  ''path();''])
      else if lower tg = ''elseif'' then
        process_children cs
          (buf @ [''path(condition=\"'' @ get attrs ''condition'' '''' @ ''\");''])
      else if lower tg = ''else'' then
        (case process_children cs (buf @ [''path(else);'']) of
           (None, buf') \<Rightarrow> (None, buf' @ [''bend();''])
         | (Some err, buf') \<Rightarrow> (Some err, buf'))
      else if lower tg = ''p'' then
        (None, buf @ [''output('' @ stripped_text txt @ '');''])
      else process_children cs buf)"
| "process_children [] buf = (None, buf)"
| "process_children (child # rest) buf =
     (case process_element child buf of
        (None, buf') \<Rightarrow> process_children rest buf'
      | (Some err, buf') \<Rightarrow> (Some err, buf'))"

subsection \<open>Header, footer and \<open>parse\<close>\<close>

text \<open>\<open>_add_header\<close>; \<open>time_str\<close> is the formatted wall-clock time.\<close>

definition add_header :: "string \<Rightarrow> string \<Rightarrow> parser \<Rightarrow> parser" where
  "add_header time_str filename self =
     self\<lparr>vfc_lines := vfc_lines self @
       ['';  IRL FlowCode Version: Version 10.0'',
        '';  c1995-2015: Visual Flow Coder by 2LResearch'',
        '';'',
        '';  File Name : '' @ filename,
        '';  File Date : '' @ time_str,
        '''']\<rparr>"

text \<open>\<open>_add_footer\<close>.\<close>

definition add_footer :: "parser \<Rightarrow> parser" where
  "add_footer self =
     self\<lparr>vfc_lines := vfc_lines self @
       [''end();'',
        '''',
        '''',
        '''',
        '';INSECTA EMBEDDED SESSION INFORMATION'',
        ''; 255 16777215 65280 16777088 16711680 13158600 13158600 0 255 255 9895835 6946660 3289650'',
        '';       //   ...'',
        ''; notepad.exe'',
        '';INSECTA EMBEDDED ALTSESSION INFORMATION'',
        ''; 1286 256 1272 1162 0 160   632   226    default.key  0'']\<rparr>"

text \<open>
  \<open>parse\<close>: the state is reset, the header added, then the text is parsed and the tree
  visited. A \<open>ParseError\<close> is re-raised as \<open>ValueError\<close> with the parser's message;
  any other exception passes through. The result is the raised error or the joined
  buffer, with the object's state after the call.
\<close>

definition parse :: "xml_parser \<Rightarrow> string \<Rightarrow> string \<Rightarrow> string \<Rightarrow> parser
                     \<Rightarrow> (error + string) \<times> parser" where
  "parse fromstring time_str poml_content output_filename self =
     (let self1 = self\<lparr>vfc_lines := [], indent_level := 0\<rparr>;
          self2 = add_header time_str output_filename self1
      in case fromstring poml_content of
           Inl e \<Rightarrow> (Inl (ValueError (''Invalid POML XML: '' @ e)), self2)
         | Inr root \<Rightarrow>
             (case process_element root (vfc_lines self2) of
                (Some err, buf) \<Rightarrow> (Inl err, self2\<lparr>vfc_lines := buf\<rparr>)
              | (None, buf) \<Rightarrow>
                  (let self3 = add_footer (self2\<lparr>vfc_lines := buf\<rparr>)
                   in (Inr (join [CHR 0x0A] (vfc_lines self3)), self3))))"

subsection \<open>Notions used to state the properties\<close>

text \<open>The lines a call of the visitor appends, read off a run from the empty buffer.\<close>

definition emitted :: "element \<Rightarrow> string list" where
  "emitted e = snd (process_element e [])"

definition emitted_all :: "element list \<Rightarrow> string list" where
  "emitted_all cs = snd (process_children cs [])"

text \<open>The trimmed value split on line breaks, each line trimmed.\<close>

definition trimmed_lines :: "string \<Rightarrow> string list" where
  "trimmed_lines val = map strip (split_on (CHR 0x0A) (strip val))"

text \<open>The first non-empty line of a list of lines, the empty string when there is none.\<close>

definition first_nonempty :: "string list \<Rightarrow> string" where
  "first_nonempty ls = (case filter (\<lambda>l. l \<noteq> []) ls of [] \<Rightarrow> [] | l # _ \<Rightarrow> l)"

text \<open>A text field that is absent or consists of whitespace only.\<close>

definition blank_text :: "string option \<Rightarrow> bool" where
  "blank_text t = (case t of None \<Rightarrow> True | Some s \<Rightarrow> list_all isspace s)"

text \<open>All elements of a document in document order, as \<open>Element.iter()\<close> lists them.\<close>

fun subelements :: "element \<Rightarrow> element list" where
  "subelements (Element tg attrs tx cs) = Element tg attrs tx cs # concat (map subelements cs)"

definition tags_of :: "element \<Rightarrow> string list" where
  "tags_of root = map (\<lambda>e. lower (tag e)) (subelements root)"

text \<open>
  The elements on which a call of \<open>_process_element\<close> on the root calls itself: the
  branches for \<open>let\<close>, \<open>task\<close> and \<open>p\<close> have no loop over the children.
\<close>

definition is_leaf_tag :: "string \<Rightarrow> bool" where
  "is_leaf_tag t = (t \<in> set [''let'', ''task'', ''p''])"

fun visited :: "element \<Rightarrow> element list" where
  "visited (Element tg attrs tx cs) =
     Element tg attrs tx cs # (if is_leaf_tag (lower tg) then [] else concat (map visited cs))"

text \<open>
  Tokens are entries of the line buffer, recognised by the statement name they begin
  with.
\<close>

definition starts_with :: "string \<Rightarrow> string \<Rightarrow> bool" where
  "starts_with p s = (take (length p) s = p)"

definition is_loop_token :: "string \<Rightarrow> bool" where
  "is_loop_token l = starts_with ''loop('' l"

definition is_lend_token :: "string \<Rightarrow> bool" where
  "is_lend_token l = starts_with ''lend('' l"

definition is_branch_token :: "string \<Rightarrow> bool" where
  "is_branch_token l = starts_with ''branch('' l"

definition is_bend_token :: "string \<Rightarrow> bool" where
  "is_bend_token l = starts_with ''bend('' l"

definition control_tokens :: "string list \<Rightarrow> string list" where
  "control_tokens ls =
     filter (\<lambda>l. is_loop_token l \<or> is_lend_token l \<or> is_branch_token l \<or> is_bend_token l) ls"

text \<open>
  Bracket matching of the loop tokens: read from nesting depth \<open>d\<close>, every \<open>lend\<close>
  closes an open \<open>loop\<close> and the depth is 0 at the end.
\<close>

fun loop_balance :: "nat \<Rightarrow> string list \<Rightarrow> bool" where
  "loop_balance d [] = (d = 0)"
| "loop_balance d (l # ls) =
     (if is_loop_token l then loop_balance (Suc d) ls
      else if is_lend_token l then (case d of 0 \<Rightarrow> False | Suc d' \<Rightarrow> loop_balance d' ls)
      else loop_balance d ls)"

text \<open>
  The returned text read as lines: the pieces between line breaks. The tokens of the
  output are the lines of the returned text.
\<close>

definition output_lines :: "string \<Rightarrow> string list" where
  "output_lines text = split_on (CHR 0x0A) text"

text \<open>The lines of what \<open>parse\<close> returns; none when it raised.\<close>

definition result_lines :: "error + string \<Rightarrow> string list" where
  "result_lines r = (case r of Inl err \<Rightarrow> [] | Inr text \<Rightarrow> output_lines text)"

text \<open>
  A string without a line break. The clock string is one: the format
  \<open>%I:%M:%S %p - %d:%b:%Y\<close> of \<open>_add_header\<close> holds no line break. It is an input of
  the model, so the properties of the returned text state it as a hypothesis.
\<close>

definition single_line :: "string \<Rightarrow> bool" where
  "single_line s = (CHR 0x0A \<notin> set s)"

text \<open>
  The strings an element's rule copies into a line, apart from the \<open>value\<close> of a
  \<open>let\<close>, which the rule splits at line breaks: the \<open>name\<close> of a \<open>let\<close>, the trimmed
  text of a \<open>task\<close> or \<open>p\<close>, the \<open>condition\<close> of an \<open>if\<close> or \<open>elseif\<close>.
\<close>

definition printed_fields :: "element \<Rightarrow> string list" where
  "printed_fields e =
     (if lower (tag e) = ''poml'' then []
      else if lower (tag e) = ''let'' then [get (attrib e) ''name'' '''']
      else if lower (tag e) = ''task'' then [stripped_text (text' e)]
      else if lower (tag e) = ''for'' then []
      else if lower (tag e) = ''if'' then [get (attrib e) ''condition'' '''']
      else if lower (tag e) = ''elseif'' then [get (attrib e) ''condition'' '''']
      else if lower (tag e) = ''else'' then []
      else if lower (tag e) = ''p'' then [stripped_text (text' e)]
      else [])"

text \<open>No element the visitor reaches copies a line break into the output.\<close>

definition line_free :: "element \<Rightarrow> bool" where
  "line_free root = list_all (\<lambda>e. list_all single_line (printed_fields e)) (visited root)"

text \<open>
  Bracket matching of both kinds of token: \<open>loop\<close> and \<open>branch\<close> open, \<open>lend\<close> and
  \<open>bend\<close> close the bracket opened last, which must be of their kind. The result is
  the stack of open brackets at the end, \<open>None\<close> when a closing token meets no
  bracket or one of the other kind, that is, when a loop and a branch interleave.
\<close>

datatype bracket = Loop | Branch

fun nest :: "bracket list \<Rightarrow> string list \<Rightarrow> bracket list option" where
  "nest st [] = Some st"
| "nest st (l # ls) =
     (if is_loop_token l then nest (Loop # st) ls
      else if is_lend_token l then
        (case st of Loop # st' \<Rightarrow> nest st' ls | _ \<Rightarrow> None)
      else if is_branch_token l then nest (Branch # st) ls
      else if is_bend_token l then
        (case st of Branch # st' \<Rightarrow> nest st' ls | _ \<Rightarrow> None)
      else nest st ls)"

text \<open>
  The \<open>if\<close> and \<open>else\<close> elements are paired among their siblings: in every list of
  children the visitor processes, each \<open>else\<close> follows an \<open>if\<close> that is still open and
  every \<open>if\<close> is closed by a later \<open>else\<close> of the same list; \<open>d\<close> counts the open ones.
\<close>

fun well_branched :: "element \<Rightarrow> bool"
  and siblings_paired :: "nat \<Rightarrow> element list \<Rightarrow> bool"
where
  "well_branched (Element tg attrs tx cs) =
     (if is_leaf_tag (lower tg) then True else siblings_paired 0 cs)"
| "siblings_paired d [] = (d = 0)"
| "siblings_paired d (c # cs) =
     (well_branched c \<and>
      (if lower (tag c) = ''if'' then siblings_paired (Suc d) cs
       else if lower (tag c) = ''else'' then
         (case d of 0 \<Rightarrow> False | Suc d' \<Rightarrow> siblings_paired d' cs)
       else siblings_paired d cs))"

text \<open>
  A table-driven stand-in for \<open>ET.fromstring\<close>, for running \<open>parse\<close> on sample
  texts: each listed text gives the listed outcome, the tree or the message of the
  \<open>ParseError\<close>; any other text is rejected.
\<close>

definition parser_of :: "(string \<times> (string + element)) list \<Rightarrow> xml_parser" where
  "parser_of table s =
     (case map_of table s of
        Some r \<Rightarrow> r
      | None \<Rightarrow> Inl ''syntax error: line 1, column 0'')"

section \<open>Properties\<close>

subsection \<open>String operations\<close>

lemma split_on_not_Nil: "split_on sep s \<noteq> []"
  by (induction s) (auto split: list.splits)
lemma split_on_head: "c \<noteq> sep \<Longrightarrow> \<exists>l ls. split_on sep (c # cs) = (c # l) # ls"
  using split_on_not_Nil [of sep cs] by (cases "split_on sep cs") auto

lemma dropWhile_snoc_keep: "\<not> P c \<Longrightarrow> \<exists>ys. dropWhile P (xs @ [c]) = ys @ [c]"
  by (induction xs) auto

lemma strip_Nil: "strip [] = []"
  by (simp add: strip_def)

lemma strip_all_space:
  assumes "\<forall>c \<in> set s. isspace c"
  shows "strip s = []"
proof -
  have a: "dropWhile isspace s = []" using assms by (simp add: dropWhile_eq_Nil_conv)
  have "strip s = rev (dropWhile isspace (rev []))" unfolding strip_def a ..
  then show ?thesis by simp
qed

lemma strip_keeps_head:
  assumes c: "\<not> isspace c"
  shows "\<exists>t. strip (c # cs) = c # t"
proof -
  obtain ys where ys: "dropWhile isspace (rev cs @ [c]) = ys @ [c]"
    using dropWhile_snoc_keep [of isspace c "rev cs"] c by blast
  have "dropWhile isspace (c # cs) = c # cs" using c by simp
  then have "strip (c # cs) = rev (dropWhile isspace (rev cs @ [c]))"
    unfolding strip_def by simp
  also have "\<dots> = c # rev ys" unfolding ys by simp
  finally show ?thesis by blast
qed

lemma strip_starts_nonspace:
  assumes "strip s \<noteq> []"
  shows "\<exists>c t. strip s = c # t \<and> \<not> isspace c"
proof -
  let ?w = "dropWhile isspace s"
  have "?w \<noteq> []"
  proof
    assume a: "?w = []"
    have "strip s = rev (dropWhile isspace (rev []))" unfolding strip_def a ..
    with assms show False by simp
  qed
  then obtain c t where w: "?w = c # t" by (cases ?w) auto
  have c: "\<not> isspace c" using hd_dropWhile [of isspace s] w by auto
  obtain ys where ys: "dropWhile isspace (rev t @ [c]) = ys @ [c]"
    using dropWhile_snoc_keep [of isspace c "rev t"] c by blast
  have "strip s = rev (dropWhile isspace (rev t @ [c]))"
    unfolding strip_def w by simp
  also have "\<dots> = c # rev ys" unfolding ys by simp
  finally show ?thesis using c by blast
qed

subsection \<open>The \<open>let\<close> rule\<close>

lemma set_rest_eq:
  "set_rest ls buf =
     buf @ map (\<lambda>l. ''set('' @ l @ '');'') (filter (\<lambda>l. l \<noteq> [] \<and> l \<noteq> '']'') (map strip ls))"
  by (induction ls arbitrary: buf) (simp_all add: Let_def)

lemma process_let_multi:
  assumes "CHR 0x0A \<in> set val"
  shows "process_let name val buf =
     (None, buf @ [''set(name=\"'' @ name @ ''\" value=\"'' @ strip (hd (split_on (CHR 0x0A) (strip val))) @ ''\");'']
        @ map (\<lambda>l. ''set('' @ l @ '');'')
            (filter (\<lambda>l. l \<noteq> [] \<and> l \<noteq> '']'') (map strip (tl (split_on (CHR 0x0A) (strip val)))))
        @ (if strip (last (split_on (CHR 0x0A) (strip val))) = '']'' then [''set(]\");''] else [])
        @ [''end();'', ''''])"
proof (cases "split_on (CHR 0x0A) (strip val)")
  case Nil
  then show ?thesis using split_on_not_Nil by blast
next
  case (Cons l0 rest)
  show ?thesis
    unfolding process_let_def Let_def Cons set_rest_eq using assms by simp
qed

lemma process_let_single:
  assumes "CHR 0x0A \<notin> set val"
  shows "process_let name val buf =
     (None, buf @ [''set(name=\"'' @ name @ ''\" value=\"'' @ val @ ''\");'', ''end();'', ''''])"
  using assms by (simp add: process_let_def)

lemma process_let_emit: "process_let name val buf = (None, buf @ snd (process_let name val []))"
proof (cases "CHR 0x0A \<in> set val")
  case True
  show ?thesis
    unfolding process_let_multi [OF True, of name buf] process_let_multi [OF True, of name "[]"]
    by simp
next
  case False
  show ?thesis
    unfolding process_let_single [OF False, of name buf] process_let_single [OF False, of name "[]"]
    by simp
qed

subsection \<open>The visitor only appends\<close>

lemma process_children_emit:
  assumes "\<And>c buf. c \<in> set cs \<Longrightarrow> process_element c buf = (None, buf @ emitted c)"
  shows "process_children cs buf = (None, buf @ emitted_all cs)"
  using assms
proof (induction cs arbitrary: buf)
  case Nil
  show ?case by (simp add: emitted_all_def)
next
  case (Cons c cs)
  have c: "\<And>b. process_element c b = (None, b @ emitted c)" using Cons.prems by simp
  have r: "\<And>b. process_children cs b = (None, b @ emitted_all cs)" using Cons by simp
  have "emitted_all (c # cs) = emitted c @ emitted_all cs"
    unfolding emitted_all_def [of "c # cs"] by (simp add: c r)
  then show ?case by (simp add: c r)
qed

lemma process_element_emit: "process_element e buf = (None, buf @ emitted e)"
proof (induction e arbitrary: buf)
  case (Element tg attrs tx cs)
  have ch: "\<And>b. process_children cs b = (None, b @ emitted_all cs)"
    using process_children_emit Element.IH by blast
  have lt: "\<And>n v. process_let n v buf = (None, buf @ snd (process_let n v []))"
    by (rule process_let_emit)
  show ?case
    unfolding emitted_def by (simp add: ch lt)
qed

lemma process_children_emit_all: "process_children cs buf = (None, buf @ emitted_all cs)"
  by (rule process_children_emit) (rule process_element_emit)

lemma emitted_all_Nil: "emitted_all [] = []"
  by (simp add: emitted_all_def)

lemma emitted_all_Cons: "emitted_all (c # cs) = emitted c @ emitted_all cs"
proof -
  have "process_children (c # cs) [] = (None, emitted c @ emitted_all cs)"
    by (subst process_children.simps) (simp add: process_element_emit process_children_emit_all)
  then have "snd (process_children (c # cs) []) = emitted c @ emitted_all cs" by simp
  then show ?thesis unfolding emitted_all_def [of "c # cs"] .
qed

lemma emitted_all_append: "emitted_all (xs @ ys) = emitted_all xs @ emitted_all ys"
  by (induction xs) (simp_all add: emitted_all_Nil emitted_all_Cons)

lemmas eval_defs = lower_def lower_char_def char_of_def bit_Suc_0_iff get_def stripped_text_def
  strip_def isspace_def process_let_def trimmed_lines_def first_nonempty_def blank_text_def

lemma process_element_let:
  assumes "lower (tag e) = ''let''"
  shows "process_element e buf =
           process_let (get (attrib e) ''name'' '''') (get (attrib e) ''value'' '''') buf"
  using assms by (cases e) simp

lemma isspace_newline: "isspace (CHR 0x0A)"
  by (simp add: isspace_def)

lemma trimmed_lines_not_Nil: "trimmed_lines val \<noteq> []"
  by (simp add: trimmed_lines_def split_on_not_Nil)

lemma hd_trimmed_lines: "hd (trimmed_lines val) = strip (hd (split_on (CHR 0x0A) (strip val)))"
  by (simp add: trimmed_lines_def hd_map split_on_not_Nil)

lemma tl_trimmed_lines: "tl (trimmed_lines val) = map strip (tl (split_on (CHR 0x0A) (strip val)))"
  by (simp add: trimmed_lines_def map_tl)

lemma last_trimmed_lines:
  "last (trimmed_lines val) = strip (last (split_on (CHR 0x0A) (strip val)))"
  by (simp add: trimmed_lines_def last_map split_on_not_Nil)

lemma first_nonempty_trimmed: "first_nonempty (trimmed_lines val) = hd (trimmed_lines val)"
proof (cases "strip val = []")
  case True
  have "trimmed_lines val = [[]]"
    unfolding trimmed_lines_def True by (simp add: strip_def)
  then show ?thesis by (simp add: first_nonempty_def)
next
  case False
  then obtain c t where ct: "strip val = c # t" and c: "\<not> isspace c"
    using strip_starts_nonspace by blast
  have "c \<noteq> CHR 0x0A" using c isspace_newline by auto
  then obtain l ls where sp: "split_on (CHR 0x0A) (c # t) = (c # l) # ls"
    using split_on_head by blast
  obtain t' where t': "strip (c # l) = c # t'" using strip_keeps_head [OF c] by blast
  have "trimmed_lines val = (c # t') # map strip ls"
    unfolding trimmed_lines_def ct sp using t' by simp
  then show ?thesis by (simp add: first_nonempty_def)
qed

lemma process_let_trimmed:
  assumes "CHR 0x0A \<in> set val"
  shows "process_let name val buf =
     (None, buf @ [''set(name=\"'' @ name @ ''\" value=\"'' @ first_nonempty (trimmed_lines val) @ ''\");'']
        @ map (\<lambda>l. ''set('' @ l @ '');'')
            (filter (\<lambda>l. l \<noteq> [] \<and> l \<noteq> '']'') (tl (trimmed_lines val)))
        @ (if last (trimmed_lines val) = '']'' then [''set(]\");''] else [])
        @ [''end();'', ''''])"
  unfolding process_let_multi [OF assms] first_nonempty_trimmed hd_trimmed_lines
    tl_trimmed_lines last_trimmed_lines ..

subsection \<open>Claims about the \<open>let\<close> rule\<close>

text \<open>
  Claim C1. For a \<open>let\<close> element whose \<open>value\<close> contains a line break, the visitor
  appends, in this order: \<open>set(name="<name>" value="<first non-empty trimmed line>");\<close>,
  one \<open>set(<line>);\<close> for each later trimmed line that is neither empty nor \<open>]\<close>,
  the closing-bracket line exactly when the last trimmed line is \<open>]\<close>, then
  \<open>end();\<close> and an empty line. The witness runs the value with the trimmed lines
  \<open>a,\<close>, \<open>b,\<close>, \<open>]\<close>.
\<close>

theorem let_multi_line:
  assumes "lower (tag e) = ''let''"
    and "CHR 0x0A \<in> set (get (attrib e) ''value'' '''')"
  shows "process_element e buf =
     (None, buf @ [''set(name=\"'' @ get (attrib e) ''name'' '''' @ ''\" value=\"''
                     @ first_nonempty (trimmed_lines (get (attrib e) ''value'' '''')) @ ''\");'']
        @ map (\<lambda>l. ''set('' @ l @ '');'')
            (filter (\<lambda>l. l \<noteq> [] \<and> l \<noteq> '']'')
               (tl (trimmed_lines (get (attrib e) ''value'' ''''))))
        @ (if last (trimmed_lines (get (attrib e) ''value'' '''')) = '']''
           then [''set(]\");''] else [])
        @ [''end();'', ''''])"
  unfolding process_element_let [OF assms(1)] process_let_trimmed [OF assms(2)] ..

theorem let_multi_line_witness:
  "lower (tag (Element ''let'' [''name'' \<mapsto> ''arr'', ''value'' \<mapsto> ''a,'' @ [CHR 0x0A] @ '' b,'' @ [CHR 0x0A] @ '']''] None [])) = ''let''
   \<and> trimmed_lines (''a,'' @ [CHR 0x0A] @ '' b,'' @ [CHR 0x0A] @ '']'') = [''a,'', ''b,'', '']'']
   \<and> process_element (Element ''let'' [''name'' \<mapsto> ''arr'', ''value'' \<mapsto> ''a,'' @ [CHR 0x0A] @ '' b,'' @ [CHR 0x0A] @ '']''] None []) [''x'']
       = (None, [''x'', ''set(name=\"arr\" value=\"a,\");'', ''set(b,);'', ''set(]\");'', ''end();'', ''''])"
proof -
  let ?e = "Element ''let'' [''name'' \<mapsto> ''arr'', ''value'' \<mapsto> ''a,'' @ [CHR 0x0A] @ '' b,'' @ [CHR 0x0A] @ '']''] None []"
  have h1: "lower (tag ?e) = ''let''" by (simp add: eval_defs)
  have h2: "CHR 0x0A \<in> set (get (attrib ?e) ''value'' '''')" by (simp add: eval_defs)
  have t: "trimmed_lines (''a,'' @ [CHR 0x0A] @ '' b,'' @ [CHR 0x0A] @ '']'') = [''a,'', ''b,'', '']'']"
    by (simp add: eval_defs)
  show ?thesis using h1 t let_multi_line [OF h1 h2, of "[''x'']"]
    by (simp add: get_def t first_nonempty_def)
qed

text \<open>
  Claim C5. For a \<open>let\<close> element whose \<open>value\<close> contains no line break, the visitor
  appends exactly \<open>set(name="<name>" value="<value>");\<close>, then \<open>end();\<close>, then an
  empty line.
\<close>

theorem let_single_line:
  assumes "lower (tag e) = ''let''"
    and "CHR 0x0A \<notin> set (get (attrib e) ''value'' '''')"
  shows "process_element e buf =
     (None, buf @ [''set(name=\"'' @ get (attrib e) ''name'' '''' @ ''\" value=\"''
                     @ get (attrib e) ''value'' '''' @ ''\");'',
                   ''end();'', ''''])"
  unfolding process_element_let [OF assms(1)] process_let_single [OF assms(2)] ..

theorem let_single_line_witness:
  "lower (tag (Element ''let'' [''name'' \<mapsto> ''x'', ''value'' \<mapsto> ''1''] None [])) = ''let''
   \<and> CHR 0x0A \<notin> set (get (attrib (Element ''let'' [''name'' \<mapsto> ''x'', ''value'' \<mapsto> ''1''] None [])) ''value'' '''')
   \<and> process_element (Element ''let'' [''name'' \<mapsto> ''x'', ''value'' \<mapsto> ''1''] None []) []
       = (None, [''set(name=\"x\" value=\"1\");'', ''end();'', ''''])"
proof -
  let ?e = "Element ''let'' [''name'' \<mapsto> ''x'', ''value'' \<mapsto> ''1''] None []"
  have h1: "lower (tag ?e) = ''let''" by (simp add: eval_defs)
  have h2: "CHR 0x0A \<notin> set (get (attrib ?e) ''value'' '''')" by (simp add: eval_defs)
  show ?thesis using h1 h2 let_single_line [OF h1 h2, of "[]"]
    by (simp add: get_def)
qed

text \<open>
  Claim C9. In the multi-line case, when the last trimmed line of the value is \<open>]\<close>,
  the line appended just before \<open>end();\<close> is the fixed string \<open>set(]");\<close>, with its
  single double quote, whatever the name and the other lines are.
\<close>

theorem let_closing_bracket_line:
  assumes "lower (tag e) = ''let''"
    and "CHR 0x0A \<in> set (get (attrib e) ''value'' '''')"
    and "last (trimmed_lines (get (attrib e) ''value'' '''')) = '']''"
  shows "\<exists>front. process_element e buf =
           (None, buf @ front @
              [[CHR ''s'', CHR ''e'', CHR ''t'', CHR ''('', CHR '']'', CHR 0x22, CHR '')'', CHR '';''],
               ''end();'', ''''])"
  unfolding process_element_let [OF assms(1)] process_let_trimmed [OF assms(2)] assms(3)
  by simp

theorem let_closing_bracket_line_witness:
  "lower (tag (Element ''LET'' [''value'' \<mapsto> [CHR 0x0A] @ ''[ 1,'' @ [CHR 0x0A] @ '' ] '' ] None [])) = ''let''
   \<and> last (trimmed_lines ([CHR 0x0A] @ ''[ 1,'' @ [CHR 0x0A] @ '' ] '')) = '']''
   \<and> (\<exists>front. process_element (Element ''LET'' [''value'' \<mapsto> [CHR 0x0A] @ ''[ 1,'' @ [CHR 0x0A] @ '' ] '' ] None []) []
       = (None, front @ [''set(]\");'', ''end();'', '''']))"
proof -
  let ?e = "Element ''LET'' [''value'' \<mapsto> [CHR 0x0A] @ ''[ 1,'' @ [CHR 0x0A] @ '' ] '' ] None []"
  have h1: "lower (tag ?e) = ''let''" by (simp add: eval_defs)
  have h2: "CHR 0x0A \<in> set (get (attrib ?e) ''value'' '''')" by (simp add: eval_defs)
  have h3: "last (trimmed_lines (get (attrib ?e) ''value'' '''')) = '']''" by (simp add: eval_defs)
  have h3': "last (trimmed_lines ([CHR 0x0A] @ ''[ 1,'' @ [CHR 0x0A] @ '' ] '')) = '']''"
    by (simp add: eval_defs)
  show ?thesis using h1 h3' let_closing_bracket_line [OF h1 h2 h3, of "[]"]
    by simp
qed

text \<open>
  Claim C10. For a \<open>let\<close> element whose \<open>value\<close> contains a line break and nothing
  but whitespace, the visitor returns without raising and appends
  \<open>set(name="<name>" value="");\<close>, \<open>end();\<close> and an empty line, and nothing else.
\<close>

theorem let_whitespace_value:
  assumes "lower (tag e) = ''let''"
    and "CHR 0x0A \<in> set (get (attrib e) ''value'' '''')"
    and "\<forall>c \<in> set (get (attrib e) ''value'' ''''). isspace c"
  shows "process_element e buf =
     (None, buf @ [''set(name=\"'' @ get (attrib e) ''name'' '''' @ ''\" value=\"\");'',
                   ''end();'', ''''])"
proof -
  have s: "strip (get (attrib e) ''value'' '''') = []"
    using assms(3) by (rule strip_all_space)
  have "trimmed_lines (get (attrib e) ''value'' '''') = [[]]"
    unfolding trimmed_lines_def s by (simp add: strip_Nil)
  then show ?thesis
    unfolding process_element_let [OF assms(1)] process_let_trimmed [OF assms(2)]
    by (simp add: first_nonempty_def)
qed

theorem let_whitespace_value_witness:
  "lower (tag (Element ''let'' [''name'' \<mapsto> ''v'', ''value'' \<mapsto> [CHR 0x20, CHR 0x0A, CHR 0x09]] None [])) = ''let''
   \<and> CHR 0x0A \<in> set [CHR 0x20, CHR 0x0A, CHR 0x09]
   \<and> list_all isspace [CHR 0x20, CHR 0x0A, CHR 0x09]
   \<and> process_element (Element ''let'' [''name'' \<mapsto> ''v'', ''value'' \<mapsto> [CHR 0x20, CHR 0x0A, CHR 0x09]] None []) []
       = (None, [''set(name=\"v\" value=\"\");'', ''end();'', ''''])"
proof -
  let ?e = "Element ''let'' [''name'' \<mapsto> ''v'', ''value'' \<mapsto> [CHR 0x20, CHR 0x0A, CHR 0x09]] None []"
  have h1: "lower (tag ?e) = ''let''" by (simp add: eval_defs)
  have h2: "CHR 0x0A \<in> set (get (attrib ?e) ''value'' '''')" by (simp add: eval_defs)
  have h3: "\<forall>c \<in> set (get (attrib ?e) ''value'' ''''). isspace c" by (simp add: eval_defs)
  have h3': "list_all isspace [CHR 0x20, CHR 0x0A, CHR 0x09]" by (simp add: eval_defs)
  show ?thesis using h1 h3' let_whitespace_value [OF h1 h2 h3, of "[]"]
    by (simp add: get_def)
qed

subsection \<open>Missing attributes and texts\<close>

lemma stripped_text_blank: "blank_text t \<Longrightarrow> stripped_text t = []"
  by (cases t) (auto simp: blank_text_def stripped_text_def list_all_iff intro: strip_all_space)

lemma get_upd_absent: "attrs k = None \<Longrightarrow> get (attrs(k \<mapsto> [])) key [] = get attrs key []"
  by (simp add: get_def)

lemma process_element_no_error: "fst (process_element e buf) = None"
  by (simp add: process_element_emit)

lemma process_element_attr_default:
  assumes "attrs k = None"
  shows "process_element (Element tg (attrs(k \<mapsto> [])) tx cs) buf
         = process_element (Element tg attrs tx cs) buf"
  using assms by (simp add: get_upd_absent)

lemma process_element_task:
  assumes "lower (tag e) = ''task''"
  shows "process_element e buf = (None, buf @ [''input('' @ stripped_text (text' e) @ '');''])"
  using assms by (cases e) simp

lemma process_element_p:
  assumes "lower (tag e) = ''p''"
  shows "process_element e buf = (None, buf @ [''output('' @ stripped_text (text' e) @ '');''])"
  using assms by (cases e) simp

text \<open>
  Claim C7. A missing attribute or a missing or whitespace-only text never raises. The
  visitor returns on every element; for a \<open>task\<close> or \<open>p\<close> element whose text is absent
  or all whitespace it appends \<open>input();\<close> or \<open>output();\<close>; and an element that lacks
  one of the attributes \<open>name\<close>, \<open>value\<close>, \<open>condition\<close>, \<open>each\<close>, \<open>in\<close> is treated
  exactly as the same element carrying that attribute with the empty string.
\<close>

theorem missing_attribute_or_text:
  "fst (process_element e buf) = None
   \<and> (lower (tag e) = ''task'' \<and> blank_text (text' e)
        \<longrightarrow> process_element e buf = (None, buf @ [''input();'']))
   \<and> (lower (tag e) = ''p'' \<and> blank_text (text' e)
        \<longrightarrow> process_element e buf = (None, buf @ [''output();'']))
   \<and> (k \<in> set [''name'', ''value'', ''condition'', ''each'', ''in''] \<and> attrib e k = None
        \<longrightarrow> process_element e buf
            = process_element (Element (tag e) ((attrib e)(k \<mapsto> '''')) (text' e) (children e)) buf)"
proof -
  have a: "fst (process_element e buf) = None" by (rule process_element_no_error)
  have b: "process_element e buf = (None, buf @ [''input();''])"
    if "lower (tag e) = ''task''" "blank_text (text' e)"
    using that by (simp add: process_element_task stripped_text_blank)
  have c: "process_element e buf = (None, buf @ [''output();''])"
    if "lower (tag e) = ''p''" "blank_text (text' e)"
    using that by (simp add: process_element_p stripped_text_blank)
  have d: "process_element e buf
            = process_element (Element (tag e) ((attrib e)(k \<mapsto> '''')) (text' e) (children e)) buf"
    if "attrib e k = None"
    using that process_element_attr_default [of "attrib e" k "tag e" "text' e" "children e" buf]
    by simp
  show ?thesis using a b c d by blast
qed

theorem missing_attribute_or_text_witness:
  "process_element (Element ''task'' Map.empty (Some [CHR 0x20, CHR 0x0A]) []) [] = (None, [''input();''])
   \<and> process_element (Element ''P'' Map.empty None []) [] = (None, [''output();''])
   \<and> process_element (Element ''if'' Map.empty None []) []
       = process_element (Element ''if'' [''condition'' \<mapsto> ''''] None []) []
   \<and> process_element (Element ''if'' Map.empty None []) []
       = (None, [''branch(if  condition=\"\");'', ''path();''])
   \<and> fst (process_element (Element ''let'' Map.empty None []) []) = None"
proof -
  let ?t = "Element ''task'' Map.empty (Some [CHR 0x20, CHR 0x0A]) []"
  let ?p = "Element ''P'' Map.empty None []"
  let ?i = "Element ''if'' Map.empty None []"
  have ht: "lower (tag ?t) = ''task'' \<and> blank_text (text' ?t)" by (simp add: eval_defs)
  have hp: "lower (tag ?p) = ''p'' \<and> blank_text (text' ?p)" by (simp add: eval_defs)
  have hi: "''condition'' \<in> set [''name'', ''value'', ''condition'', ''each'', ''in'']
            \<and> attrib ?i ''condition'' = None" by simp
  have t: "process_element ?t [] = (None, [''input();''])"
    using missing_attribute_or_text [of ?t "[]"] ht by simp
  have p: "process_element ?p [] = (None, [''output();''])"
    using missing_attribute_or_text [of ?p "[]"] hp by simp
  have i: "process_element ?i [] = process_element (Element ''if'' [''condition'' \<mapsto> ''''] None []) []"
    using missing_attribute_or_text [of ?i "[]" "''condition''"] hi by simp
  have i': "process_element (Element ''if'' [''condition'' \<mapsto> ''''] None []) []
            = (None, [''branch(if  condition=\"\");'', ''path();''])"
    by (simp add: eval_defs)
  have l: "fst (process_element (Element ''let'' Map.empty None []) []) = None"
    by (rule missing_attribute_or_text
              [of "Element ''let'' Map.empty None []" "[]" "''name''", THEN conjunct1])
  show ?thesis using t p i i' l by simp
qed

subsection \<open>Claims about \<open>parse\<close>\<close>

lemma reset_state: "(self :: parser)\<lparr>vfc_lines := [], indent_level := 0\<rparr> = init"
  by (cases self) (simp add: init_def)

text \<open>
  Claim C8. For a given parser result, clock string, input text and output file name,
  \<open>parse\<close> returns the same output and leaves the same state whatever state the
  converter was in: a call that follows an earlier conversion on the same instance gives
  what a call on a fresh instance gives.
\<close>

theorem parse_ignores_previous_state:
  "parse fromstring time_str poml_content output_filename self
     = parse fromstring time_str poml_content output_filename init
   \<and> fst (parse fromstring time_str poml_content output_filename
             (snd (parse fromstring time_str' poml_content' output_filename' self)))
     = fst (parse fromstring time_str poml_content output_filename init)"
  unfolding parse_def reset_state by simp

lemma parse_eq:
  "parse fromstring time_str poml_content output_filename self =
     (case fromstring poml_content of
        Inl d \<Rightarrow> (Inl (ValueError (''Invalid POML XML: '' @ d)), add_header time_str output_filename init)
      | Inr root \<Rightarrow>
          (Inr (join [CHR 0x0A] (vfc_lines (add_header time_str output_filename init) @ emitted root
                                  @ vfc_lines (add_footer init))),
           \<lparr>vfc_lines = vfc_lines (add_header time_str output_filename init) @ emitted root
                                  @ vfc_lines (add_footer init), indent_level = 0\<rparr>))"
  unfolding parse_def reset_state
  by (simp add: process_element_emit Let_def add_footer_def add_header_def init_def split: sum.splits)

subsection \<open>The lines of each rule\<close>

lemma emitted_Element:
  "emitted (Element tg attrs tx cs) =
     (if lower tg = ''poml'' then emitted_all cs
      else if lower tg = ''let'' then
        snd (process_let (get attrs ''name'' '''') (get attrs ''value'' '''') [])
      else if lower tg = ''task'' then [''input('' @ stripped_text tx @ '');'']
      else if lower tg = ''for'' then ''loop(for each);'' # emitted_all cs @ [''lend();'']
      else if lower tg = ''if'' then
        [''branch(if  condition=\"'' @ get attrs ''condition'' '''' @ ''\");'', ''path();'']
        @ emitted_all cs
      else if lower tg = ''elseif'' then
        [''path(condition=\"'' @ get attrs ''condition'' '''' @ ''\");''] @ emitted_all cs
      else if lower tg = ''else'' then ''path(else);'' # emitted_all cs @ [''bend();'']
      else if lower tg = ''p'' then [''output('' @ stripped_text tx @ '');'']
      else emitted_all cs)"
  unfolding emitted_def [of "Element tg attrs tx cs"]
  by (simp add: process_children_emit_all)

lemma emitted_all_concat: "emitted_all cs = concat (map emitted cs)"
  by (induction cs) (simp_all add: emitted_all_Nil emitted_all_Cons)

lemma let_line_plain:
  assumes "l \<in> set (snd (process_let name val []))"
  shows "\<not> is_loop_token l \<and> \<not> is_lend_token l \<and> \<not> is_branch_token l \<and> \<not> is_bend_token l"
proof (cases "CHR 0x0A \<in> set val")
  case True
  from assms show ?thesis
    unfolding process_let_multi [OF True]
    by (auto simp: is_loop_token_def is_lend_token_def is_branch_token_def is_bend_token_def
          starts_with_def split: if_splits)
next
  case False
  from assms show ?thesis
    unfolding process_let_single [OF False]
    by (auto simp: is_loop_token_def is_lend_token_def is_branch_token_def is_bend_token_def
          starts_with_def)
qed

lemma let_filter_tokens:
  "filter is_loop_token (snd (process_let name val [])) = []"
  "filter is_lend_token (snd (process_let name val [])) = []"
  "filter is_branch_token (snd (process_let name val [])) = []"
  "filter is_bend_token (snd (process_let name val [])) = []"
  using let_line_plain by (simp_all add: filter_empty_conv)

subsection \<open>Counting and matching tokens\<close>

lemmas token_defs = is_loop_token_def is_lend_token_def is_branch_token_def is_bend_token_def
  starts_with_def

lemma own_loop:
  "length (filter is_loop_token (emitted (Element tg attrs tx cs))) =
     (if lower tg = ''for'' then 1 else 0)
     + (if is_leaf_tag (lower tg) then 0 else length (filter is_loop_token (emitted_all cs)))"
  by (simp add: emitted_Element is_leaf_tag_def let_filter_tokens token_defs)

lemma own_lend:
  "length (filter is_lend_token (emitted (Element tg attrs tx cs))) =
     (if lower tg = ''for'' then 1 else 0)
     + (if is_leaf_tag (lower tg) then 0 else length (filter is_lend_token (emitted_all cs)))"
  by (simp add: emitted_Element is_leaf_tag_def let_filter_tokens token_defs)

lemma own_branch:
  "length (filter is_branch_token (emitted (Element tg attrs tx cs))) =
     (if lower tg = ''if'' then 1 else 0)
     + (if is_leaf_tag (lower tg) then 0 else length (filter is_branch_token (emitted_all cs)))"
  by (simp add: emitted_Element is_leaf_tag_def let_filter_tokens token_defs)

lemma own_bend:
  "length (filter is_bend_token (emitted (Element tg attrs tx cs))) =
     (if lower tg = ''else'' then 1 else 0)
     + (if is_leaf_tag (lower tg) then 0 else length (filter is_bend_token (emitted_all cs)))"
  by (simp add: emitted_Element is_leaf_tag_def let_filter_tokens token_defs)

lemma length_filter_concat:
  "length (filter P (concat xss)) = sum_list (map (\<lambda>xs. length (filter P xs)) xss)"
  by (induction xss) simp_all

lemma count_tokens:
  assumes own: "\<And>tg attrs tx cs.
     length (filter P (emitted (Element tg attrs tx cs))) =
       (if lower tg = t then 1 else 0)
       + (if is_leaf_tag (lower tg) then 0 else length (filter P (emitted_all cs)))"
  shows "length (filter P (emitted e)) = length (filter (\<lambda>x. lower (tag x) = t) (visited e))"
proof (induction e)
  case (Element tg attrs tx cs)
  have "sum_list (map (\<lambda>c. length (filter P (emitted c))) cs)
        = sum_list (map (\<lambda>c. length (filter (\<lambda>x. lower (tag x) = t) (visited c))) cs)"
    using Element.IH by (simp cong: map_cong)
  then have ch: "length (filter P (emitted_all cs))
        = length (filter (\<lambda>x. lower (tag x) = t) (concat (map visited cs)))"
    by (simp add: emitted_all_concat length_filter_concat comp_def)
  show ?case unfolding own by (simp add: ch)
qed

lemmas count_loop = count_tokens [of is_loop_token "''for''", OF own_loop]
lemmas count_lend = count_tokens [of is_lend_token "''for''", OF own_lend]
lemmas count_branch = count_tokens [of is_branch_token "''if''", OF own_branch]
lemmas count_bend = count_tokens [of is_bend_token "''else''", OF own_bend]

lemma around_0: "\<exists>A B. ys = A @ ys @ B"
  by (rule exI [of _ "[]"], rule exI [of _ "[]"]) simp

lemma around_1: "\<exists>A B. x # ys = A @ ys @ B"
  by (rule exI [of _ "[x]"], rule exI [of _ "[]"]) simp

lemma around_2: "\<exists>A B. x # y # ys = A @ ys @ B"
  by (rule exI [of _ "[x, y]"], rule exI [of _ "[]"]) simp

lemma around_3: "\<exists>A B. x # ys @ [z] = A @ ys @ B"
  by (rule exI [of _ "[x]"], rule exI [of _ "[z]"]) simp

lemma emitted_nonleaf:
  assumes "\<not> is_leaf_tag (lower (tag e))"
  shows "\<exists>A B. emitted e = A @ emitted_all (children e) @ B"
proof (cases e)
  case (Element tg attrs tx cs)
  from assms Element show ?thesis
    unfolding Element emitted_Element
    by (auto simp: is_leaf_tag_def intro: around_0 around_1 around_2 around_3)
qed

lemma visited_segment:
  assumes "e \<in> set (visited root)"
  shows "\<exists>pre post. emitted root = pre @ emitted e @ post"
  using assms
proof (induction root)
  case (Element tg attrs tx cs)
  show ?case
  proof (cases "e = Element tg attrs tx cs")
    case True
    then show ?thesis using around_0 by blast
  next
    case False
    with Element.prems have nl: "\<not> is_leaf_tag (lower tg)"
      and "e \<in> set (concat (map visited cs))"
      by (auto split: if_splits)
    then obtain c where c: "c \<in> set cs" and ec: "e \<in> set (visited c)" by auto
    from Element.IH [OF c ec] obtain p q where pq: "emitted c = p @ emitted e @ q" by blast
    from c obtain xs ys where cs: "cs = xs @ c # ys" by (meson split_list)
    obtain A B where AB: "emitted (Element tg attrs tx cs) = A @ emitted_all cs @ B"
      using emitted_nonleaf [of "Element tg attrs tx cs"] nl by auto
    have "emitted_all cs = emitted_all xs @ (p @ emitted e @ q) @ emitted_all ys"
      unfolding cs emitted_all_append emitted_all_Cons pq ..
    then have "emitted (Element tg attrs tx cs)
          = (A @ emitted_all xs @ p) @ emitted e @ (q @ emitted_all ys @ B)"
      unfolding AB by simp
    then show ?thesis by blast
  qed
qed

lemma loop_balance_append:
  "loop_balance k xs \<Longrightarrow> loop_balance (k + d) (xs @ ys) = loop_balance d ys"
proof (induction xs arbitrary: k)
  case Nil
  then show ?case by simp
next
  case (Cons l xs)
  show ?case
  proof (cases "is_loop_token l")
    case True
    with Cons.prems have "loop_balance (Suc k) xs" by simp
    from Cons.IH [OF this] True show ?thesis by simp
  next
    case False
    show ?thesis
    proof (cases "is_lend_token l")
      case True
      with False Cons.prems obtain k' where k: "k = Suc k'" and "loop_balance k' xs"
        by (cases k) auto
      from Cons.IH [OF this(2)] False True k show ?thesis by simp
    next
      case nl: False
      with False Cons.prems have "loop_balance k xs" by simp
      from Cons.IH [OF this] False nl show ?thesis by simp
    qed
  qed
qed

lemma loop_balance_plain:
  "\<forall>l \<in> set xs. \<not> is_loop_token l \<and> \<not> is_lend_token l \<Longrightarrow> loop_balance d xs = (d = 0)"
  by (induction xs) simp_all

lemma loop_balance_two:
  assumes "loop_balance 0 xs" and "loop_balance 0 ys"
  shows "loop_balance 0 (xs @ ys)"
  using loop_balance_append [OF assms(1), of 0 ys] assms(2) by simp

lemma loop_balance_concat:
  "(\<And>xs. xs \<in> set xss \<Longrightarrow> loop_balance 0 xs) \<Longrightarrow> loop_balance 0 (concat xss)"
  by (induction xss) (simp_all add: loop_balance_two)

lemma loop_balance_for:
  assumes "loop_balance 0 body"
  shows "loop_balance 0 (''loop(for each);'' # body @ [''lend();''])"
proof -
  have "loop_balance (0 + 1) (body @ [''lend();'']) = loop_balance 1 [''lend();'']"
    by (rule loop_balance_append [OF assms])
  then show ?thesis by (simp add: token_defs)
qed

lemma loop_balance_emitted: "loop_balance 0 (emitted e)"
proof (induction e)
  case (Element tg attrs tx cs)
  have ch: "loop_balance 0 (emitted_all cs)"
    unfolding emitted_all_concat by (rule loop_balance_concat) (use Element.IH in auto)
  have lt: "loop_balance 0 (snd (process_let n v []))" for n v
    using let_line_plain [of _ n v] by (simp add: loop_balance_plain)
  have bend: "loop_balance 0 (emitted_all cs @ [''bend();''])"
    by (rule loop_balance_two [OF ch]) (simp add: token_defs)
  have forl: "loop_balance 0 (''loop(for each);'' # emitted_all cs @ [''lend();''])"
    by (rule loop_balance_for [OF ch])
  show ?case
    unfolding emitted_Element
    using ch lt bend forl by (simp add: token_defs)
qed

lemma loop_balance_emitted_all: "loop_balance 0 (emitted_all cs)"
  unfolding emitted_all_concat by (rule loop_balance_concat) (auto intro: loop_balance_emitted)

lemma emitted_for:
  assumes "lower (tag e) = ''for''"
  shows "emitted e = ''loop(for each);'' # emitted_all (children e) @ [''lend();'']"
  using assms by (cases e) (simp add: emitted_Element)

lemma emitted_if:
  assumes "lower (tag e) = ''if''"
  shows "emitted e = [''branch(if  condition=\"'' @ get (attrib e) ''condition'' '''' @ ''\");'',
                      ''path();''] @ emitted_all (children e)"
  using assms by (cases e) (simp add: emitted_Element)

lemma emitted_else:
  assumes "lower (tag e) = ''else''"
  shows "emitted e = ''path(else);'' # emitted_all (children e) @ [''bend();'']"
  using assms by (cases e) (simp add: emitted_Element)

lemma visited_subelements: "set (visited e) \<subseteq> set (subelements e)"
  by (induction e) auto

lemma no_tag_no_visited:
  assumes "t \<notin> set (tags_of root)"
  shows "filter (\<lambda>x. lower (tag x) = t) (visited root) = []"
  using assms visited_subelements [of root] by (auto simp: tags_of_def filter_empty_conv)


subsection \<open>Control tokens of header and footer\<close>

lemma control_tokens_empty:
  assumes "filter is_loop_token ls = []" "filter is_lend_token ls = []"
    "filter is_branch_token ls = []" "filter is_bend_token ls = []"
  shows "control_tokens ls = []"
  using assms unfolding control_tokens_def filter_empty_conv by blast

lemma control_tokens_append: "control_tokens (xs @ ys) = control_tokens xs @ control_tokens ys"
  by (simp add: control_tokens_def)

lemma control_tokens_header: "control_tokens (vfc_lines (add_header time_str filename init)) = []"
  by (simp add: control_tokens_def add_header_def init_def token_defs)

lemma control_tokens_footer: "control_tokens (vfc_lines (add_footer init)) = []"
  by (simp add: control_tokens_def add_footer_def init_def token_defs)

subsection \<open>The lines of the returned text\<close>

lemma split_on_append_sep:
  "split_on sep (xs @ sep # ys) = split_on sep xs @ split_on sep ys"
proof (induction xs)
  case Nil
  show ?case by simp
next
  case (Cons c xs)
  obtain l ls where s: "split_on sep xs = l # ls"
    using split_on_not_Nil [of sep xs] by (cases "split_on sep xs") auto
  show ?case using Cons by (simp add: s)
qed

lemma split_on_join:
  "ls \<noteq> [] \<Longrightarrow> split_on sep (join [sep] ls) = concat (map (split_on sep) ls)"
proof (induction ls)
  case Nil
  then show ?case by simp
next
  case (Cons x xs)
  show ?case
  proof (cases xs)
    case Nil
    then show ?thesis by simp
  next
    case (Cons y ys)
    with Cons.IH have "split_on sep (join [sep] (y # ys)) = concat (map (split_on sep) (y # ys))"
      by simp
    then show ?thesis unfolding Cons by (simp add: split_on_append_sep)
  qed
qed

lemma split_on_single: "sep \<notin> set s \<Longrightarrow> split_on sep s = [s]"
  by (induction s) auto

lemma output_lines_single: "single_line s \<Longrightarrow> output_lines s = [s]"
  by (simp add: single_line_def output_lines_def split_on_single)

lemma output_lines_join:
  "ls \<noteq> [] \<Longrightarrow> output_lines (join [CHR 0x0A] ls) = concat (map output_lines ls)"
  unfolding output_lines_def by (simp add: split_on_join)

lemma concat_map_single:
  "(\<And>l. l \<in> set ls \<Longrightarrow> f l = [l]) \<Longrightarrow> concat (map f ls) = ls"
  by (induction ls) simp_all

lemma output_lines_join_single:
  assumes "ls \<noteq> []" and "\<And>l. l \<in> set ls \<Longrightarrow> single_line l"
  shows "output_lines (join [CHR 0x0A] ls) = ls"
  unfolding output_lines_join [OF assms(1)]
  by (rule concat_map_single) (simp add: output_lines_single assms(2))

lemma join_split_on: "join [sep] (split_on sep s) = s"
proof (induction s)
  case Nil
  show ?case by simp
next
  case (Cons c s)
  obtain l ls where sp: "split_on sep s = l # ls"
    using split_on_not_Nil [of sep s] by (cases "split_on sep s") auto
  show ?case
  proof (cases "c = sep")
    case True
    then show ?thesis using Cons by (simp add: sp)
  next
    case False
    then show ?thesis using Cons by (cases ls) (simp_all add: sp)
  qed
qed

lemma set_strip: "set (strip s) \<subseteq> set s"
proof -
  have "set (dropWhile isspace (rev (dropWhile isspace s))) \<subseteq> set (rev (dropWhile isspace s))"
    by (meson set_dropWhileD subsetI)
  also have "\<dots> \<subseteq> set s" using set_dropWhileD [of _ isspace s] by auto
  finally show ?thesis unfolding strip_def by simp
qed

lemma single_line_strip: "single_line s \<Longrightarrow> single_line (strip s)"
  using set_strip [of s] by (auto simp: single_line_def)

lemma single_line_append: "single_line (a @ b) = (single_line a \<and> single_line b)"
  by (auto simp: single_line_def)

lemma split_on_pieces: "l \<in> set (split_on sep s) \<Longrightarrow> sep \<notin> set l"
proof (induction s arbitrary: l)
  case Nil
  then show ?case by simp
next
  case (Cons c s)
  obtain p ps where sp: "split_on sep s = p # ps"
    using split_on_not_Nil [of sep s] by (cases "split_on sep s") auto
  have p: "sep \<notin> set p" and ps: "\<And>x. x \<in> set ps \<Longrightarrow> sep \<notin> set x"
    using Cons.IH sp by auto
  show ?case
  proof (cases "c = sep")
    case True
    with Cons.prems sp p ps show ?thesis by auto
  next
    case False
    with Cons.prems sp p ps show ?thesis by auto
  qed
qed

lemma single_line_piece:
  "l \<in> set (split_on (CHR 0x0A) s) \<Longrightarrow> single_line (strip l)"
  by (rule single_line_strip) (simp add: single_line_def split_on_pieces)

lemma let_line_single:
  assumes "single_line name" and "l \<in> set (snd (process_let name val []))"
  shows "single_line l"
proof (cases "CHR 0x0A \<in> set val")
  case True
  have hdp: "hd (split_on (CHR 0x0A) (strip val)) \<in> set (split_on (CHR 0x0A) (strip val))"
    by (simp add: split_on_not_Nil)
  have tlp: "x \<in> set (tl (split_on (CHR 0x0A) (strip val)))
             \<Longrightarrow> x \<in> set (split_on (CHR 0x0A) (strip val))" for x
    by (meson list.set_sel(2) split_on_not_Nil)
  have first: "single_line (strip (hd (split_on (CHR 0x0A) (strip val))))"
    by (rule single_line_piece [OF hdp])
  have rest: "single_line (strip x)" if "x \<in> set (tl (split_on (CHR 0x0A) (strip val)))" for x
    by (rule single_line_piece [OF tlp [OF that]])
  have lit: "single_line ''set(name=\"''" "single_line ''\" value=\"''" "single_line ''\");''"
    "single_line ''set(''" "single_line '');''" "single_line ''set(]\");''"
    "single_line ''end();''" "single_line []"
    by (simp_all add: single_line_def)
  from assms(2) show ?thesis
    unfolding process_let_multi [OF True]
    using assms(1) first rest lit
    by (auto simp: single_line_append simp del: append.simps split: if_splits)
next
  case False
  have lit: "single_line ''set(name=\"''" "single_line ''\" value=\"''" "single_line ''\");''"
    "single_line ''end();''" "single_line []"
    by (simp_all add: single_line_def)
  have v: "single_line val" using False by (simp add: single_line_def)
  from assms(2) show ?thesis
    unfolding process_let_single [OF False]
    using assms(1) v lit
    by (auto simp: single_line_append simp del: append.simps)
qed

lemma line_free_Element:
  "line_free (Element tg attrs tx cs) =
     (list_all single_line (printed_fields (Element tg attrs tx cs))
      \<and> (is_leaf_tag (lower tg) \<or> (\<forall>c \<in> set cs. line_free c)))"
  by (auto simp: line_free_def list_all_iff)

lemma emitted_all_lines:
  "l \<in> set (emitted_all cs) \<Longrightarrow> \<exists>c \<in> set cs. l \<in> set (emitted c)"
  by (auto simp: emitted_all_concat)

lemma emitted_single:
  "line_free e \<Longrightarrow> l \<in> set (emitted e) \<Longrightarrow> single_line l"
proof (induction e arbitrary: l)
  case (Element tg attrs tx cs)
  have ch: "single_line x" if "\<not> is_leaf_tag (lower tg)" "x \<in> set (emitted_all cs)" for x
  proof -
    from that(2) obtain c where c: "c \<in> set cs" "x \<in> set (emitted c)"
      using emitted_all_lines by blast
    from Element.prems(1) that(1) c(1) have "line_free c"
      by (simp add: line_free_Element)
    from Element.IH [OF c(1) this c(2)] show ?thesis .
  qed
  have pf: "list_all single_line (printed_fields (Element tg attrs tx cs))"
    using Element.prems(1) by (simp add: line_free_Element)
  have lit: "single_line ''input(''" "single_line ''output(''" "single_line '');''"
    "single_line ''loop(for each);''" "single_line ''lend();''"
    "single_line ''branch(if  condition=\"''" "single_line ''\");''" "single_line ''path();''"
    "single_line ''path(condition=\"''" "single_line ''path(else);''" "single_line ''bend();''"
    by (simp_all add: single_line_def)
  consider (c_poml) "lower tg = ''poml''"
    | (c_let) "lower tg = ''let''"
    | (c_task) "lower tg = ''task''"
    | (c_for) "lower tg = ''for''"
    | (c_if) "lower tg = ''if''"
    | (c_elseif) "lower tg = ''elseif''"
    | (c_else) "lower tg = ''else''"
    | (c_p) "lower tg = ''p''"
    | (c_other) "lower tg \<notin> set [''poml'', ''let'', ''task'', ''for'', ''if'', ''elseif'', ''else'', ''p'']"
    by auto
  then show ?case
  proof cases
    case c_poml
    with Element.prems(2) ch show ?thesis
      by (simp add: emitted_Element is_leaf_tag_def)
  next
    case c_let
    with pf have "single_line (get attrs ''name'' '''')" by (simp add: printed_fields_def)
    from let_line_single [OF this] Element.prems(2) c_let show ?thesis
      by (simp add: emitted_Element)
  next
    case c_task
    with pf have "single_line (stripped_text tx)" by (simp add: printed_fields_def)
    with Element.prems(2) c_task lit show ?thesis
      by (simp add: emitted_Element single_line_append del: append.simps)
  next
    case c_for
    with Element.prems(2) ch lit show ?thesis
      by (auto simp: emitted_Element is_leaf_tag_def)
  next
    case c_if
    with pf have "single_line (get attrs ''condition'' '''')" by (simp add: printed_fields_def)
    with Element.prems(2) c_if ch lit show ?thesis
      by (auto simp: emitted_Element is_leaf_tag_def single_line_append simp del: append.simps)
  next
    case c_elseif
    with pf have "single_line (get attrs ''condition'' '''')" by (simp add: printed_fields_def)
    with Element.prems(2) c_elseif ch lit show ?thesis
      by (auto simp: emitted_Element is_leaf_tag_def single_line_append simp del: append.simps)
  next
    case c_else
    with Element.prems(2) ch lit show ?thesis
      by (auto simp: emitted_Element is_leaf_tag_def)
  next
    case c_p
    with pf have "single_line (stripped_text tx)" by (simp add: printed_fields_def)
    with Element.prems(2) c_p lit show ?thesis
      by (simp add: emitted_Element single_line_append del: append.simps)
  next
    case c_other
    with Element.prems(2) ch show ?thesis
      by (simp add: emitted_Element is_leaf_tag_def)
  qed
qed

lemma header_single:
  assumes "single_line filename" and "single_line time_str"
    and "l \<in> set (vfc_lines (add_header time_str filename init))"
  shows "single_line l"
proof -
  have lit: "single_line '';  File Name : ''" "single_line '';  File Date : ''"
    by (simp_all add: single_line_def)
  from assms(3) consider "l = '';  IRL FlowCode Version: Version 10.0''"
    | "l = '';  c1995-2015: Visual Flow Coder by 2LResearch''" | "l = '';''"
    | "l = '';  File Name : '' @ filename" | "l = '';  File Date : '' @ time_str" | "l = []"
    by (auto simp: add_header_def init_def simp del: append.simps)
  then show ?thesis
    using assms(1,2) lit by cases (simp_all add: single_line_append del: append.simps, simp_all add: single_line_def)
qed

lemma footer_single: "l \<in> set (vfc_lines (add_footer init)) \<Longrightarrow> single_line l"
  by (auto simp: add_footer_def init_def single_line_def)

lemma result_lines_parse:
  assumes "fromstring poml_content = Inr root"
  shows "result_lines (fst (parse fromstring time_str poml_content output_filename self))
         = concat (map output_lines (vfc_lines (add_header time_str output_filename init)
                                      @ emitted root @ vfc_lines (add_footer init)))"
proof -
  have ne: "vfc_lines (add_header time_str output_filename init) @ emitted root
            @ vfc_lines (add_footer init) \<noteq> []"
    by (simp add: add_header_def init_def)
  show ?thesis
    unfolding parse_eq assms result_lines_def using output_lines_join [OF ne] by simp
qed

lemma result_lines_parse_single:
  assumes "fromstring poml_content = Inr root"
    and "line_free root" and "single_line output_filename" and "single_line time_str"
  shows "result_lines (fst (parse fromstring time_str poml_content output_filename self))
         = vfc_lines (add_header time_str output_filename init)
           @ emitted root @ vfc_lines (add_footer init)"
  unfolding result_lines_parse
              [where fromstring = fromstring and poml_content = poml_content, OF assms(1)]
  by (rule concat_map_single, rule output_lines_single)
     (auto dest: header_single [OF assms(3,4)] emitted_single [OF assms(2)] footer_single)

subsection \<open>Nesting of loops and branches\<close>

lemma nest_append:
  "nest st (xs @ ys) = (case nest st xs of None \<Rightarrow> None | Some st' \<Rightarrow> nest st' ys)"
  by (induction xs arbitrary: st) (auto split: list.splits bracket.splits)

lemma nest_plain:
  "control_tokens xs = [] \<Longrightarrow> nest st xs = Some st"
  by (induction xs) (auto simp: control_tokens_def split: if_splits)

lemma nest_then:
  "nest st xs = Some st' \<Longrightarrow> nest st (xs @ ys) = nest st' ys"
  by (simp add: nest_append)

lemma control_tokens_let: "control_tokens (snd (process_let name val [])) = []"
  unfolding control_tokens_def filter_empty_conv using let_line_plain by blast

lemma nest_element_step:
  assumes ch: "\<And>st. \<not> is_leaf_tag (lower tg) \<Longrightarrow> siblings_paired 0 cs
                 \<Longrightarrow> nest st (emitted_all cs) = Some st"
    and wb: "well_branched (Element tg attrs tx cs)"
  shows "nest (if lower tg = ''else'' then Branch # st else st) (emitted (Element tg attrs tx cs))
         = Some (if lower tg = ''if'' then Branch # st else st)"
proof -
  have body: "nest s (emitted_all cs) = Some s" if "\<not> is_leaf_tag (lower tg)" for s
    using ch [OF that] wb that by simp
  consider (c_poml) "lower tg = ''poml''"
    | (c_let) "lower tg = ''let''"
    | (c_task) "lower tg = ''task''"
    | (c_for) "lower tg = ''for''"
    | (c_if) "lower tg = ''if''"
    | (c_elseif) "lower tg = ''elseif''"
    | (c_else) "lower tg = ''else''"
    | (c_p) "lower tg = ''p''"
    | (c_other) "lower tg \<notin> set [''poml'', ''let'', ''task'', ''for'', ''if'', ''elseif'', ''else'', ''p'']"
    by auto
  then show ?thesis
  proof cases
    case c_poml
    then show ?thesis using body [of st] by (simp add: emitted_Element is_leaf_tag_def)
  next
    case c_let
    then show ?thesis by (simp add: emitted_Element nest_plain control_tokens_let)
  next
    case c_task
    then show ?thesis by (simp add: emitted_Element token_defs)
  next
    case c_for
    have "nest (Loop # st) (emitted_all cs @ [''lend();'']) = nest (Loop # st) [''lend();'']"
      by (rule nest_then) (use c_for body in \<open>simp add: is_leaf_tag_def\<close>)
    with c_for show ?thesis by (simp add: emitted_Element token_defs)
  next
    case c_if
    then show ?thesis using body [of "Branch # st"]
      by (simp add: emitted_Element token_defs is_leaf_tag_def)
  next
    case c_elseif
    then show ?thesis using body [of st]
      by (simp add: emitted_Element token_defs is_leaf_tag_def)
  next
    case c_else
    have "nest (Branch # st) (emitted_all cs @ [''bend();'']) = nest (Branch # st) [''bend();'']"
      by (rule nest_then) (use c_else body in \<open>simp add: is_leaf_tag_def\<close>)
    with c_else show ?thesis by (simp add: emitted_Element token_defs)
  next
    case c_p
    then show ?thesis by (simp add: emitted_Element token_defs)
  next
    case c_other
    then show ?thesis using body [of st] by (simp add: emitted_Element is_leaf_tag_def)
  qed
qed

lemma nest_siblings_step:
  assumes el: "\<And>c st. c \<in> set cs \<Longrightarrow> well_branched c \<Longrightarrow>
             nest (if lower (tag c) = ''else'' then Branch # st else st) (emitted c)
             = Some (if lower (tag c) = ''if'' then Branch # st else st)"
  shows "siblings_paired d cs \<Longrightarrow> nest (replicate d Branch @ st) (emitted_all cs) = Some st"
  using el
proof (induction cs arbitrary: d)
  case Nil
  then show ?case by (simp add: emitted_all_Nil)
next
  case (Cons c cs)
  have wb: "well_branched c" using Cons.prems(1) by simp
  have rest: "\<And>k. siblings_paired k cs \<Longrightarrow> nest (replicate k Branch @ st) (emitted_all cs) = Some st"
    using Cons.IH Cons.prems(2) by simp
  note step = Cons.prems(2) [of c, simplified, OF wb]
  show ?case
  proof (cases "lower (tag c) = ''if''")
    case True
    with Cons.prems(1) have sp: "siblings_paired (Suc d) cs" by simp
    have "nest (replicate d Branch @ st) (emitted c) = Some (Branch # replicate d Branch @ st)"
      using step [of "replicate d Branch @ st"] True by simp
    then show ?thesis
      unfolding emitted_all_Cons using rest [OF sp] by (simp add: nest_append)
  next
    case False
    show ?thesis
    proof (cases "lower (tag c) = ''else''")
      case True
      with False Cons.prems(1) obtain d' where d: "d = Suc d'" and sp: "siblings_paired d' cs"
        by (cases d) auto
      have "nest (Branch # replicate d' Branch @ st) (emitted c) = Some (replicate d' Branch @ st)"
        using step [of "replicate d' Branch @ st"] True by simp
      then show ?thesis
        unfolding emitted_all_Cons d using rest [OF sp] by (simp add: nest_append)
    next
      case ne: False
      with False Cons.prems(1) have sp: "siblings_paired d cs" by simp
      have "nest (replicate d Branch @ st) (emitted c) = Some (replicate d Branch @ st)"
        using step [of "replicate d Branch @ st"] False ne by simp
      then show ?thesis
        unfolding emitted_all_Cons using rest [OF sp] by (simp add: nest_append)
    qed
  qed
qed

lemma nest_element:
  "well_branched e \<Longrightarrow>
     nest (if lower (tag e) = ''else'' then Branch # st else st) (emitted e)
     = Some (if lower (tag e) = ''if'' then Branch # st else st)"
proof (induction e arbitrary: st)
  case (Element tg attrs tx cs)
  have "nest s (emitted_all cs) = Some s" if "siblings_paired 0 cs" for s
    using nest_siblings_step [of cs 0 s, OF Element.IH that] by simp
  then show ?case using nest_element_step [of tg cs attrs tx st] Element.prems by simp
qed

lemma nest_siblings:
  "siblings_paired d cs \<Longrightarrow> nest (replicate d Branch @ st) (emitted_all cs) = Some st"
  by (rule nest_siblings_step) (rule nest_element)

lemma siblings_paired_member:
  "siblings_paired d cs \<Longrightarrow> c \<in> set cs \<Longrightarrow> well_branched c"
  by (induction cs arbitrary: d) (auto split: if_splits nat.splits)

lemma well_branched_visited:
  "well_branched r \<Longrightarrow> e \<in> set (visited r) \<Longrightarrow> well_branched e"
proof (induction r)
  case (Element tg attrs tx cs)
  show ?case
  proof (cases "e = Element tg attrs tx cs")
    case True
    with Element.prems(1) show ?thesis by simp
  next
    case False
    with Element.prems(2) have nl: "\<not> is_leaf_tag (lower tg)"
      and "e \<in> set (concat (map visited cs))"
      by (auto split: if_splits)
    then obtain c where c: "c \<in> set cs" "e \<in> set (visited c)" by auto
    from Element.prems(1) nl have "siblings_paired 0 cs" by simp
    from siblings_paired_member [OF this c(1)] have "well_branched c" .
    from Element.IH [OF c(1) this c(2)] show ?thesis .
  qed
qed

lemma nest_for_body:
  assumes "siblings_paired 0 [root]" and "e \<in> set (visited root)" and "lower (tag e) = ''for''"
  shows "nest st (emitted_all (children e)) = Some st"
proof -
  from assms(1) have "well_branched root" by simp
  from well_branched_visited [OF this assms(2)] have wb: "well_branched e" .
  have "siblings_paired 0 (children e)"
    using wb assms(3) by (cases e) (simp add: is_leaf_tag_def)
  from nest_siblings [OF this, of st] show ?thesis by simp
qed

lemma nest_root:
  assumes "siblings_paired 0 [root]"
  shows "nest st (emitted root) = Some st"
  using nest_siblings [OF assms, of st] by (simp add: emitted_all_Cons emitted_all_Nil)

subsection \<open>Header and footer around the statement lines\<close>

lemma control_tokens_filters:
  assumes "control_tokens xs = []"
  shows "filter is_loop_token xs = []" "filter is_lend_token xs = []"
    "filter is_branch_token xs = []" "filter is_bend_token xs = []"
  using assms unfolding control_tokens_def filter_empty_conv by blast+

lemma loop_balance_no_tokens: "control_tokens xs = [] \<Longrightarrow> loop_balance 0 xs"
  using loop_balance_plain [of xs 0] unfolding control_tokens_def filter_empty_conv by blast

lemma loop_balance_framed:
  assumes "loop_balance 0 xs"
  shows "loop_balance 0 (vfc_lines (add_header time_str filename init) @ xs
                         @ vfc_lines (add_footer init))"
  by (intro loop_balance_two loop_balance_no_tokens control_tokens_header control_tokens_footer
        assms)

lemma nest_framed:
  assumes "nest [] xs = Some []"
  shows "nest [] (vfc_lines (add_header time_str filename init) @ xs
                  @ vfc_lines (add_footer init)) = Some []"
  by (simp add: nest_append nest_plain control_tokens_header control_tokens_footer assms)

lemma filter_framed:
  "filter is_loop_token (vfc_lines (add_header time_str filename init) @ xs
       @ vfc_lines (add_footer init)) = filter is_loop_token xs"
  "filter is_lend_token (vfc_lines (add_header time_str filename init) @ xs
       @ vfc_lines (add_footer init)) = filter is_lend_token xs"
  "filter is_bend_token (vfc_lines (add_header time_str filename init) @ xs
       @ vfc_lines (add_footer init)) = filter is_bend_token xs"
  by (simp_all add: control_tokens_filters [OF control_tokens_header]
        control_tokens_filters [OF control_tokens_footer])

lemma parse_returns:
  "fromstring poml_content = Inr root \<Longrightarrow>
     \<exists>text. fst (parse fromstring time_str poml_content output_filename self) = Inr text"
  by (simp add: parse_eq)

lemmas eval_more = single_line_def printed_fields_def line_free_def output_lines_def
  result_lines_def parser_of_def is_leaf_tag_def tags_of_def

lemma header_lines: "concat (map output_lines (vfc_lines (add_header ''01:13:23 PM - 15:Sep:2025'' ''out.vfc'' init)))
   = vfc_lines (add_header ''01:13:23 PM - 15:Sep:2025'' ''out.vfc'' init)"
  by (rule concat_map_single, rule output_lines_single, rule header_single [of "''out.vfc''" "''01:13:23 PM - 15:Sep:2025''"])
     (simp_all add: single_line_def)

lemma footer_lines: "concat (map output_lines (vfc_lines (add_footer init))) = vfc_lines (add_footer init)"
  by (rule concat_map_single, rule output_lines_single, rule footer_single)

lemma header_length: "length (vfc_lines (add_header time_str filename init)) = 6"
  by (simp add: add_header_def init_def)


subsection \<open>Claims about the converted output\<close>

text \<open>
  Claim C6. \<open>parse\<close> raises exactly when the XML parser rejects the text, and the error
  is then \<open>ValueError\<close> with the parser's message after \<open>Invalid POML XML: \<close>. When the
  parser accepts the text, \<open>parse\<close> returns the header, the visitor's lines and the
  footer joined by line breaks: the lines of the returned text are the lines of these
  buffer entries in order, and a text is determined by its lines. The witness gives the
  returned text of a sample document character by character.
\<close>

theorem parse_fails_iff_not_well_formed:
  "fst (parse fromstring time_str poml_content output_filename self) =
     (case fromstring poml_content of
        Inl d \<Rightarrow> Inl (ValueError (''Invalid POML XML: '' @ d))
      | Inr root \<Rightarrow>
          Inr (join [CHR 0x0A] (vfc_lines (add_header time_str output_filename init)
                                 @ emitted root @ vfc_lines (add_footer init))))
   \<and> ((\<exists>err. fst (parse fromstring time_str poml_content output_filename self) = Inl err)
        = (\<exists>d. fromstring poml_content = Inl d))
   \<and> result_lines (fst (parse fromstring time_str poml_content output_filename self)) =
     (case fromstring poml_content of
        Inl d \<Rightarrow> []
      | Inr root \<Rightarrow>
          concat (map output_lines (vfc_lines (add_header time_str output_filename init)
                                     @ emitted root @ vfc_lines (add_footer init))))
   \<and> join [CHR 0x0A] (output_lines text) = text"
proof (cases "fromstring poml_content")
  case (Inl d)
  then show ?thesis
    by (simp add: parse_eq result_lines_def output_lines_def join_split_on)
next
  case (Inr root)
  have "result_lines (fst (parse fromstring time_str poml_content output_filename self)) =
          concat (map output_lines (vfc_lines (add_header time_str output_filename init)
                                     @ emitted root @ vfc_lines (add_footer init)))"
    by (rule result_lines_parse [where fromstring = fromstring, OF Inr])
  then show ?thesis
    using Inr by (simp add: parse_eq output_lines_def join_split_on)
qed

theorem parse_fails_iff_not_well_formed_witness:
  "fst (parse (parser_of
          [(''<poml><p>hi</poml>'', Inl ''mismatched tag: line 1, column 13''),
           (''<poml><p>hi</p></poml>'',
            Inr (Element ''poml'' Map.empty None [Element ''p'' Map.empty (Some ''hi'') []]))])
          ''01:13:23 PM - 15:Sep:2025'' ''<poml><p>hi</poml>'' ''out.vfc'' init)
     = Inl (ValueError ''Invalid POML XML: mismatched tag: line 1, column 13'')
   \<and> fst (parse (parser_of
          [(''<poml><p>hi</poml>'', Inl ''mismatched tag: line 1, column 13''),
           (''<poml><p>hi</p></poml>'',
            Inr (Element ''poml'' Map.empty None [Element ''p'' Map.empty (Some ''hi'') []]))])
          ''01:13:23 PM - 15:Sep:2025'' ''<poml><p>hi</p></poml>'' ''out.vfc'' init)
     = Inr ('';  IRL FlowCode Version: Version 10.0'' @ [CHR 0x0A]
          @ '';  c1995-2015: Visual Flow Coder by 2LResearch'' @ [CHR 0x0A]
          @ '';'' @ [CHR 0x0A]
          @ '';  File Name : out.vfc'' @ [CHR 0x0A]
          @ '';  File Date : 01:13:23 PM - 15:Sep:2025'' @ [CHR 0x0A]
          @ [CHR 0x0A]
          @ ''output(hi);'' @ [CHR 0x0A]
          @ ''end();'' @ [CHR 0x0A]
          @ [CHR 0x0A]
          @ [CHR 0x0A]
          @ [CHR 0x0A]
          @ '';INSECTA EMBEDDED SESSION INFORMATION'' @ [CHR 0x0A]
          @ ''; 255 16777215 65280 16777088 16711680 13158600 13158600 0 255 255 9895835 6946660 3289650'' @ [CHR 0x0A]
          @ '';       //   ...'' @ [CHR 0x0A]
          @ ''; notepad.exe'' @ [CHR 0x0A]
          @ '';INSECTA EMBEDDED ALTSESSION INFORMATION'' @ [CHR 0x0A]
          @ ''; 1286 256 1272 1162 0 160   632   226    default.key  0'')"
proof -
  let ?doc = "Element ''poml'' Map.empty None [Element ''p'' Map.empty (Some ''hi'') []]"
  let ?ps = "parser_of
          [(''<poml><p>hi</poml>'', Inl ''mismatched tag: line 1, column 13''),
           (''<poml><p>hi</p></poml>'', Inr ?doc)]"
  have bad: "?ps ''<poml><p>hi</poml>'' = Inl ''mismatched tag: line 1, column 13''"
    by (simp add: parser_of_def)
  have good: "?ps ''<poml><p>hi</p></poml>'' = Inr ?doc"
    by (simp add: parser_of_def)
  have em: "emitted ?doc = [''output(hi);'']"
    by (simp add: emitted_def eval_defs)
  have a: "fst (parse ?ps ''01:13:23 PM - 15:Sep:2025'' ''<poml><p>hi</poml>'' ''out.vfc'' init)
             = Inl (ValueError ''Invalid POML XML: mismatched tag: line 1, column 13'')"
    using parse_fails_iff_not_well_formed
            [of ?ps "''01:13:23 PM - 15:Sep:2025''" "''<poml><p>hi</poml>''" "''out.vfc''" init,
             THEN conjunct1]
    unfolding bad by simp
  have b: "fst (parse ?ps ''01:13:23 PM - 15:Sep:2025'' ''<poml><p>hi</p></poml>'' ''out.vfc'' init)
             = Inr (join [CHR 0x0A] (vfc_lines (add_header ''01:13:23 PM - 15:Sep:2025'' ''out.vfc'' init)
                                 @ emitted ?doc @ vfc_lines (add_footer init)))"
    using parse_fails_iff_not_well_formed
            [of ?ps "''01:13:23 PM - 15:Sep:2025''" "''<poml><p>hi</p></poml>''" "''out.vfc''" init,
             THEN conjunct1]
    unfolding good by simp
  have c: "join [CHR 0x0A] (vfc_lines (add_header ''01:13:23 PM - 15:Sep:2025'' ''out.vfc'' init)
                                 @ emitted ?doc @ vfc_lines (add_footer init)) =
          '';  IRL FlowCode Version: Version 10.0'' @ [CHR 0x0A]
          @ '';  c1995-2015: Visual Flow Coder by 2LResearch'' @ [CHR 0x0A]
          @ '';'' @ [CHR 0x0A]
          @ '';  File Name : out.vfc'' @ [CHR 0x0A]
          @ '';  File Date : 01:13:23 PM - 15:Sep:2025'' @ [CHR 0x0A]
          @ [CHR 0x0A]
          @ ''output(hi);'' @ [CHR 0x0A]
          @ ''end();'' @ [CHR 0x0A]
          @ [CHR 0x0A]
          @ [CHR 0x0A]
          @ [CHR 0x0A]
          @ '';INSECTA EMBEDDED SESSION INFORMATION'' @ [CHR 0x0A]
          @ ''; 255 16777215 65280 16777088 16711680 13158600 13158600 0 255 255 9895835 6946660 3289650'' @ [CHR 0x0A]
          @ '';       //   ...'' @ [CHR 0x0A]
          @ ''; notepad.exe'' @ [CHR 0x0A]
          @ '';INSECTA EMBEDDED ALTSESSION INFORMATION'' @ [CHR 0x0A]
          @ ''; 1286 256 1272 1162 0 160   632   226    default.key  0''"
    unfolding em by (simp add: add_header_def add_footer_def init_def)
  show ?thesis using a b unfolding c by (rule conjI)
qed

text \<open>
  Claim C2, for the \<open>for\<close> elements the visitor reaches (those not inside a \<open>let\<close>,
  \<open>task\<close> or \<open>p\<close> element), in a document that copies no line break into the output.
  The lines of the returned text hold the element's \<open>loop(for each);\<close> directly before,
  and its \<open>lend();\<close> directly after, the lines of its descendants. The lines between
  the two are balanced in \<open>loop\<close> and \<open>lend\<close>, as is the whole output, which has one
  \<open>loop\<close> and one \<open>lend\<close> line for each \<open>for\<close> element reached: the pair does not
  interleave with another loop. When the \<open>if\<close> and \<open>else\<close> elements are paired among
  their siblings, the lines between the two tokens and the whole output are well
  nested in loops and branches together: the pair does not interleave with a branch.
\<close>

theorem for_tokens_enclose_body:
  assumes "fromstring poml_content = Inr root"
    and "e \<in> set (visited root)" and "lower (tag e) = ''for''"
    and "line_free root" and "single_line output_filename" and "single_line time_str"
  shows "(\<exists>text. fst (parse fromstring time_str poml_content output_filename self) = Inr text)
     \<and> (\<exists>pre post. result_lines (fst (parse fromstring time_str poml_content output_filename self))
           = pre @ [''loop(for each);''] @ emitted_all (children e) @ [''lend();''] @ post)
     \<and> loop_balance 0 (emitted_all (children e))
     \<and> loop_balance 0 (result_lines (fst (parse fromstring time_str poml_content output_filename self)))
     \<and> length (filter is_loop_token
                 (result_lines (fst (parse fromstring time_str poml_content output_filename self))))
         = length (filter (\<lambda>x. lower (tag x) = ''for'') (visited root))
     \<and> length (filter is_lend_token
                 (result_lines (fst (parse fromstring time_str poml_content output_filename self))))
         = length (filter (\<lambda>x. lower (tag x) = ''for'') (visited root))
     \<and> (siblings_paired 0 [root] \<longrightarrow>
           nest [] (emitted_all (children e)) = Some []
           \<and> nest [] (result_lines (fst (parse fromstring time_str poml_content output_filename self)))
               = Some [])"
proof -
  let ?H = "vfc_lines (add_header time_str output_filename init)"
  let ?F = "vfc_lines (add_footer init)"
  have rl: "result_lines (fst (parse fromstring time_str poml_content output_filename self))
            = ?H @ emitted root @ ?F"
    by (rule result_lines_parse_single
          [where fromstring = fromstring, OF assms(1) assms(4) assms(5) assms(6)])
  obtain p q where pq: "emitted root = p @ emitted e @ q"
    using visited_segment [OF assms(2)] by blast
  have "?H @ emitted root @ ?F
        = (?H @ p) @ [''loop(for each);''] @ emitted_all (children e) @ [''lend();''] @ (q @ ?F)"
    unfolding pq emitted_for [OF assms(3)] by simp
  then have seg: "\<exists>pre post. ?H @ emitted root @ ?F
        = pre @ [''loop(for each);''] @ emitted_all (children e) @ [''lend();''] @ post"
    by blast
  have nst: "nest [] (emitted_all (children e)) = Some [] \<and> nest [] (?H @ emitted root @ ?F) = Some []"
    if "siblings_paired 0 [root]"
    using nest_for_body [OF that assms(2,3)] nest_framed [OF nest_root [OF that]] by simp
  show ?thesis
    unfolding rl filter_framed
    using parse_returns [where fromstring = fromstring, OF assms(1)] seg nst
      loop_balance_emitted_all loop_balance_framed [OF loop_balance_emitted]
      count_loop count_lend
    by simp
qed

theorem for_tokens_enclose_body_witness:
  "Element ''for'' Map.empty None
       [Element ''if'' [''condition'' \<mapsto> ''c''] None [], Element ''else'' Map.empty None []]
     \<in> set (visited (Element ''poml'' Map.empty None
          [Element ''for'' Map.empty None
             [Element ''if'' [''condition'' \<mapsto> ''c''] None [], Element ''else'' Map.empty None []]]))
   \<and> line_free (Element ''poml'' Map.empty None
          [Element ''for'' Map.empty None
             [Element ''if'' [''condition'' \<mapsto> ''c''] None [], Element ''else'' Map.empty None []]])
   \<and> siblings_paired 0 [Element ''poml'' Map.empty None
          [Element ''for'' Map.empty None
             [Element ''if'' [''condition'' \<mapsto> ''c''] None [], Element ''else'' Map.empty None []]]]
   \<and> (\<exists>pre post. result_lines (fst (parse
        (parser_of [(''<poml><for><if condition=\"c\"/><else/></for></poml>'',
           Inr (Element ''poml'' Map.empty None
          [Element ''for'' Map.empty None
             [Element ''if'' [''condition'' \<mapsto> ''c''] None [], Element ''else'' Map.empty None []]]))])
        ''01:13:23 PM - 15:Sep:2025'' ''<poml><for><if condition=\"c\"/><else/></for></poml>''
        ''out.vfc'' init))
      = pre @ [''loop(for each);'']
            @ [''branch(if  condition=\"c\");'', ''path();'', ''path(else);'', ''bend();'']
            @ [''lend();''] @ post)
   \<and> nest [] (result_lines (fst (parse
        (parser_of [(''<poml><for><if condition=\"c\"/><else/></for></poml>'',
           Inr (Element ''poml'' Map.empty None
          [Element ''for'' Map.empty None
             [Element ''if'' [''condition'' \<mapsto> ''c''] None [], Element ''else'' Map.empty None []]]))])
        ''01:13:23 PM - 15:Sep:2025'' ''<poml><for><if condition=\"c\"/><else/></for></poml>''
        ''out.vfc'' init))) = Some []
   \<and> length (filter is_loop_token (result_lines (fst (parse
        (parser_of [(''<poml><for><if condition=\"c\"/><else/></for></poml>'',
           Inr (Element ''poml'' Map.empty None
          [Element ''for'' Map.empty None
             [Element ''if'' [''condition'' \<mapsto> ''c''] None [], Element ''else'' Map.empty None []]]))])
        ''01:13:23 PM - 15:Sep:2025'' ''<poml><for><if condition=\"c\"/><else/></for></poml>''
        ''out.vfc'' init)))) = 1"
proof -
  let ?e = "Element ''for'' Map.empty None
       [Element ''if'' [''condition'' \<mapsto> ''c''] None [], Element ''else'' Map.empty None []]"
  let ?doc = "Element ''poml'' Map.empty None [?e]"
  let ?txt = "''<poml><for><if condition=\"c\"/><else/></for></poml>''"
  let ?ps = "parser_of [(?txt, Inr ?doc)]"
  have h1: "?ps ?txt = Inr ?doc" by (simp add: parser_of_def)
  have h2: "?e \<in> set (visited ?doc)" by (simp add: is_leaf_tag_def eval_defs)
  have h3: "lower (tag ?e) = ''for''" by (simp add: eval_defs)
  have h4: "line_free ?doc" by (simp add: eval_more eval_defs)
  have h5: "single_line ''out.vfc''" by (simp add: single_line_def)
  have h6: "single_line ''01:13:23 PM - 15:Sep:2025''" by (simp add: single_line_def)
  have h7: "siblings_paired 0 [?doc]" by (simp add: is_leaf_tag_def eval_defs)
  have body: "emitted_all (children ?e)
              = [''branch(if  condition=\"c\");'', ''path();'', ''path(else);'', ''bend();'']"
    by (simp add: emitted_all_def eval_defs)
  have n: "length (filter (\<lambda>x. lower (tag x) = ''for'') (visited ?doc)) = 1"
    by (simp add: is_leaf_tag_def eval_defs)
  show ?thesis
    using h2 h4 h7 for_tokens_enclose_body
            [where fromstring = "?ps" and poml_content = "?txt" and root = "?doc" and e = "?e"
               and time_str = "''01:13:23 PM - 15:Sep:2025''" and output_filename = "''out.vfc''"
               and self = init, OF h1 h2 h3 h4 h5 h6]
    unfolding body n by blast
qed

text \<open>
  Three documents on which the claim as stated fails. A \<open>for\<close> inside a \<open>task\<close> is not
  visited: \<open><poml><task>x<for><p>a</p></for></task></poml>\<close> gives \<open>input(x);\<close> and no
  token. An \<open>if\<close> inside a \<open>for\<close> closed by an \<open>else\<close> outside it interleaves:
  \<open><poml><for><if condition="c"/></for><else/></poml>\<close> gives the tokens loop, branch,
  lend, bend. A line break in a text puts a line \<open>lend();\<close> before the last line of the
  loop's body.
\<close>

theorem for_not_enclosing_counterexample:
  "Element ''for'' Map.empty None [Element ''p'' Map.empty (Some ''a'') []]
     \<in> set (subelements (Element ''poml'' Map.empty None
          [Element ''task'' Map.empty (Some ''x'')
             [Element ''for'' Map.empty None [Element ''p'' Map.empty (Some ''a'') []]]]))
   \<and> take 1 (drop 6 (result_lines (fst (parse
        (parser_of [(''<poml><task>x<for><p>a</p></for></task></poml>'',
           Inr (Element ''poml'' Map.empty None
          [Element ''task'' Map.empty (Some ''x'')
             [Element ''for'' Map.empty None [Element ''p'' Map.empty (Some ''a'') []]]]))])
        ''01:13:23 PM - 15:Sep:2025'' ''<poml><task>x<for><p>a</p></for></task></poml>''
        ''out.vfc'' init)))) = [''input(x);'']
   \<and> control_tokens (result_lines (fst (parse
        (parser_of [(''<poml><task>x<for><p>a</p></for></task></poml>'',
           Inr (Element ''poml'' Map.empty None
          [Element ''task'' Map.empty (Some ''x'')
             [Element ''for'' Map.empty None [Element ''p'' Map.empty (Some ''a'') []]]]))])
        ''01:13:23 PM - 15:Sep:2025'' ''<poml><task>x<for><p>a</p></for></task></poml>''
        ''out.vfc'' init))) = []
   \<and> control_tokens (result_lines (fst (parse
        (parser_of [(''<poml><for><if condition=\"c\"/></for><else/></poml>'',
           Inr (Element ''poml'' Map.empty None
          [Element ''for'' Map.empty None [Element ''if'' [''condition'' \<mapsto> ''c''] None []],
           Element ''else'' Map.empty None []]))])
        ''01:13:23 PM - 15:Sep:2025'' ''<poml><for><if condition=\"c\"/></for><else/></poml>''
        ''out.vfc'' init)))
      = [''loop(for each);'', ''branch(if  condition=\"c\");'', ''lend();'', ''bend();'']
   \<and> nest [] [''loop(for each);'', ''branch(if  condition=\"c\");'', ''lend();'', ''bend();'']
      = None
   \<and> take 5 (drop 6 (result_lines (fst (parse
        (parser_of [(''<poml><for><p>a'' @ [CHR 0x0A] @ ''lend();'' @ [CHR 0x0A] @ ''b</p></for></poml>'',
           Inr (Element ''poml'' Map.empty None
          [Element ''for'' Map.empty None
             [Element ''p'' Map.empty (Some (''a'' @ [CHR 0x0A] @ ''lend();'' @ [CHR 0x0A] @ ''b'')) []]]))])
        ''01:13:23 PM - 15:Sep:2025''
        (''<poml><for><p>a'' @ [CHR 0x0A] @ ''lend();'' @ [CHR 0x0A] @ ''b</p></for></poml>'')
        ''out.vfc'' init))))
      = [''loop(for each);'', ''output(a'', ''lend();'', ''b);'', ''lend();'']"
proof -
  let ?f1 = "Element ''for'' Map.empty None [Element ''p'' Map.empty (Some ''a'') []]"
  let ?d1 = "Element ''poml'' Map.empty None [Element ''task'' Map.empty (Some ''x'') [?f1]]"
  let ?t1 = "''<poml><task>x<for><p>a</p></for></task></poml>''"
  let ?d2 = "Element ''poml'' Map.empty None
          [Element ''for'' Map.empty None [Element ''if'' [''condition'' \<mapsto> ''c''] None []],
           Element ''else'' Map.empty None []]"
  let ?t2 = "''<poml><for><if condition=\"c\"/></for><else/></poml>''"
  let ?d3 = "Element ''poml'' Map.empty None
          [Element ''for'' Map.empty None
             [Element ''p'' Map.empty (Some (''a'' @ [CHR 0x0A] @ ''lend();'' @ [CHR 0x0A] @ ''b'')) []]]"
  let ?t3 = "''<poml><for><p>a'' @ [CHR 0x0A] @ ''lend();'' @ [CHR 0x0A] @ ''b</p></for></poml>''"
  let ?H = "vfc_lines (add_header ''01:13:23 PM - 15:Sep:2025'' ''out.vfc'' init)"
  have p1: "parser_of [(?t1, Inr ?d1)] ?t1 = Inr ?d1" by (simp add: parser_of_def)
  have p2: "parser_of [(?t2, Inr ?d2)] ?t2 = Inr ?d2" by (simp add: parser_of_def)
  have p3: "parser_of [(?t3, Inr ?d3)] ?t3 = Inr ?d3" by (simp add: parser_of_def)
  have m: "?f1 \<in> set (subelements ?d1)" by simp
  have e1: "concat (map output_lines (emitted ?d1)) = [''input(x);'']"
    by (simp add: emitted_def eval_defs output_lines_def)
  have e2: "concat (map output_lines (emitted ?d2))
            = [''loop(for each);'', ''branch(if  condition=\"c\");'', ''path();'', ''lend();'',
               ''path(else);'', ''bend();'']"
    by (simp add: emitted_def eval_defs output_lines_def)
  have e3: "concat (map output_lines (emitted ?d3))
            = [''loop(for each);'', ''output(a'', ''lend();'', ''b);'', ''lend();'']"
    by (simp add: emitted_def eval_defs output_lines_def)
  have c1: "control_tokens [''input(x);''] = []" by (simp add: control_tokens_def token_defs)
  have c2: "control_tokens [''loop(for each);'', ''branch(if  condition=\"c\");'', ''path();'',
               ''lend();'', ''path(else);'', ''bend();'']
            = [''loop(for each);'', ''branch(if  condition=\"c\");'', ''lend();'', ''bend();'']"
    by (simp add: control_tokens_def token_defs)
  have hl: "length ?H = 6" by (rule header_length)
  have r1: "result_lines (fst (parse (parser_of [(?t1, Inr ?d1)])
              ''01:13:23 PM - 15:Sep:2025'' ?t1 ''out.vfc'' init))
            = ?H @ [''input(x);''] @ vfc_lines (add_footer init)"
    unfolding result_lines_parse [where fromstring = "parser_of [(?t1, Inr ?d1)]", OF p1]
      map_append concat_append header_lines footer_lines e1 ..
  have r2: "result_lines (fst (parse (parser_of [(?t2, Inr ?d2)])
              ''01:13:23 PM - 15:Sep:2025'' ?t2 ''out.vfc'' init))
            = ?H @ [''loop(for each);'', ''branch(if  condition=\"c\");'', ''path();'', ''lend();'',
               ''path(else);'', ''bend();''] @ vfc_lines (add_footer init)"
    unfolding result_lines_parse [where fromstring = "parser_of [(?t2, Inr ?d2)]", OF p2]
      map_append concat_append header_lines footer_lines e2 ..
  have r3: "result_lines (fst (parse (parser_of [(?t3, Inr ?d3)])
              ''01:13:23 PM - 15:Sep:2025'' ?t3 ''out.vfc'' init))
            = ?H @ [''loop(for each);'', ''output(a'', ''lend();'', ''b);'', ''lend();'']
              @ vfc_lines (add_footer init)"
    unfolding result_lines_parse [where fromstring = "parser_of [(?t3, Inr ?d3)]", OF p3]
      map_append concat_append header_lines footer_lines e3 ..
  have a: "take 1 (drop 6 (?H @ [''input(x);''] @ vfc_lines (add_footer init))) = [''input(x);'']"
    using hl by simp
  have b: "control_tokens (?H @ [''input(x);''] @ vfc_lines (add_footer init)) = []"
    unfolding control_tokens_append control_tokens_header control_tokens_footer c1 by simp
  have c: "control_tokens (?H @ [''loop(for each);'', ''branch(if  condition=\"c\");'', ''path();'',
               ''lend();'', ''path(else);'', ''bend();''] @ vfc_lines (add_footer init))
           = [''loop(for each);'', ''branch(if  condition=\"c\");'', ''lend();'', ''bend();'']"
    unfolding control_tokens_append control_tokens_header control_tokens_footer c2 by simp
  have d: "take 5 (drop 6 (?H @ [''loop(for each);'', ''output(a'', ''lend();'', ''b);'', ''lend();'']
              @ vfc_lines (add_footer init)))
           = [''loop(for each);'', ''output(a'', ''lend();'', ''b);'', ''lend();'']"
    using hl by simp
  have n: "nest [] [''loop(for each);'', ''branch(if  condition=\"c\");'', ''lend();'', ''bend();'']
           = None"
    by (simp add: token_defs)
  show ?thesis unfolding r1 r2 r3 a b c d n using m by simp
qed

text \<open>
  Claim C4, for an \<open>if\<close> element followed by a sibling \<open>else\<close> element under a parent
  whose children the visitor processes, in a document that copies no line break into
  the output. The lines of the returned text hold, in this order, the \<open>if\<close> rule's
  \<open>branch(...)\<close> and \<open>path();\<close>, the lines of the \<open>if\<close>'s children, the lines of the
  siblings in between, \<open>path(else);\<close>, the lines of the \<open>else\<close>'s children and then
  the \<open>else\<close> rule's \<open>bend();\<close>: the \<open>if\<close> rule appends no \<open>bend();\<close>, the \<open>else\<close>
  rule appends one, after the lines of its branch. The returned text has one \<open>bend\<close>
  line for each \<open>else\<close> element reached, so exactly one when the document has one.
\<close>

theorem else_closes_branch:
  assumes "fromstring poml_content = Inr root"
    and "parent \<in> set (visited root)"
    and "\<not> is_leaf_tag (lower (tag parent))"
    and "children parent = xs @ i # ms @ el # ys"
    and "lower (tag i) = ''if''"
    and "lower (tag el) = ''else''"
    and "line_free root" and "single_line output_filename" and "single_line time_str"
  shows "(\<exists>text. fst (parse fromstring time_str poml_content output_filename self) = Inr text)
     \<and> (\<exists>pre post. result_lines (fst (parse fromstring time_str poml_content output_filename self))
           = pre
             @ [''branch(if  condition=\"'' @ get (attrib i) ''condition'' '''' @ ''\");'',
                ''path();'']
             @ emitted_all (children i) @ emitted_all ms
             @ [''path(else);''] @ emitted_all (children el) @ [''bend();''] @ post)
     \<and> length (filter is_bend_token
                 (result_lines (fst (parse fromstring time_str poml_content output_filename self))))
         = length (filter (\<lambda>x. lower (tag x) = ''else'') (visited root))"
proof -
  let ?H = "vfc_lines (add_header time_str output_filename init)"
  let ?F = "vfc_lines (add_footer init)"
  have rl: "result_lines (fst (parse fromstring time_str poml_content output_filename self))
            = ?H @ emitted root @ ?F"
    by (rule result_lines_parse_single
          [where fromstring = fromstring, OF assms(1) assms(7) assms(8) assms(9)])
  obtain p q where pq: "emitted root = p @ emitted parent @ q"
    using visited_segment [OF assms(2)] by blast
  obtain A B where AB: "emitted parent = A @ emitted_all (children parent) @ B"
    using emitted_nonleaf [OF assms(3)] by blast
  have ch: "emitted_all (children parent)
        = emitted_all xs @ emitted i @ emitted_all ms @ emitted el @ emitted_all ys"
    unfolding assms(4) emitted_all_append emitted_all_Cons ..
  have "?H @ emitted root @ ?F = (?H @ p @ A @ emitted_all xs)
               @ [''branch(if  condition=\"'' @ get (attrib i) ''condition'' '''' @ ''\");'',
                  ''path();'']
               @ emitted_all (children i) @ emitted_all ms
               @ [''path(else);''] @ emitted_all (children el) @ [''bend();'']
               @ (emitted_all ys @ B @ q @ ?F)"
    unfolding pq AB ch emitted_if [OF assms(5)] emitted_else [OF assms(6)] by simp
  then have seg: "\<exists>pre post. ?H @ emitted root @ ?F = pre
               @ [''branch(if  condition=\"'' @ get (attrib i) ''condition'' '''' @ ''\");'',
                  ''path();'']
               @ emitted_all (children i) @ emitted_all ms
               @ [''path(else);''] @ emitted_all (children el) @ [''bend();''] @ post"
    by blast
  show ?thesis
    unfolding rl filter_framed
    using parse_returns [where fromstring = fromstring, OF assms(1)] seg count_bend
    by simp
qed

theorem else_closes_branch_witness:
  "line_free (Element ''poml'' Map.empty None
      [Element ''if'' [''condition'' \<mapsto> ''c''] None [Element ''p'' Map.empty (Some ''a'') []],
       Element ''else'' Map.empty None [Element ''p'' Map.empty (Some ''b'') []]])
   \<and> \<not> is_leaf_tag (lower ''poml'')
   \<and> (\<exists>pre post. result_lines (fst (parse
        (parser_of [(''<poml><if condition=\"c\"><p>a</p></if><else><p>b</p></else></poml>'',
           Inr (Element ''poml'' Map.empty None
      [Element ''if'' [''condition'' \<mapsto> ''c''] None [Element ''p'' Map.empty (Some ''a'') []],
       Element ''else'' Map.empty None [Element ''p'' Map.empty (Some ''b'') []]]))])
        ''01:13:23 PM - 15:Sep:2025''
        ''<poml><if condition=\"c\"><p>a</p></if><else><p>b</p></else></poml>'' ''out.vfc'' init))
        = pre @ [''branch(if  condition=\"c\");'', ''path();''] @ [''output(a);'']
              @ [''path(else);''] @ [''output(b);''] @ [''bend();''] @ post)
   \<and> length (filter is_bend_token (result_lines (fst (parse
        (parser_of [(''<poml><if condition=\"c\"><p>a</p></if><else><p>b</p></else></poml>'',
           Inr (Element ''poml'' Map.empty None
      [Element ''if'' [''condition'' \<mapsto> ''c''] None [Element ''p'' Map.empty (Some ''a'') []],
       Element ''else'' Map.empty None [Element ''p'' Map.empty (Some ''b'') []]]))])
        ''01:13:23 PM - 15:Sep:2025''
        ''<poml><if condition=\"c\"><p>a</p></if><else><p>b</p></else></poml>'' ''out.vfc'' init)))) = 1"
proof -
  let ?i = "Element ''if'' [''condition'' \<mapsto> ''c''] None [Element ''p'' Map.empty (Some ''a'') []]"
  let ?el = "Element ''else'' Map.empty None [Element ''p'' Map.empty (Some ''b'') []]"
  let ?root = "Element ''poml'' Map.empty None [?i, ?el]"
  let ?txt = "''<poml><if condition=\"c\"><p>a</p></if><else><p>b</p></else></poml>''"
  let ?ps = "parser_of [(?txt, Inr ?root)]"
  have h0: "?ps ?txt = Inr ?root" by (simp add: parser_of_def)
  have h1: "?root \<in> set (visited ?root)" by simp
  have h2: "\<not> is_leaf_tag (lower (tag ?root))" by (simp add: is_leaf_tag_def eval_defs)
  have h2': "\<not> is_leaf_tag (lower ''poml'')" by (simp add: is_leaf_tag_def eval_defs)
  have h3: "children ?root = [] @ ?i # [] @ ?el # []" by simp
  have h4: "lower (tag ?i) = ''if''" by (simp add: eval_defs)
  have h5: "lower (tag ?el) = ''else''" by (simp add: eval_defs)
  have h6: "line_free ?root" by (simp add: eval_more eval_defs)
  have h7: "single_line ''out.vfc''" by (simp add: single_line_def)
  have h8: "single_line ''01:13:23 PM - 15:Sep:2025''" by (simp add: single_line_def)
  have a: "emitted_all (children ?i) = [''output(a);'']" by (simp add: emitted_all_def eval_defs)
  have b: "emitted_all (children ?el) = [''output(b);'']" by (simp add: emitted_all_def eval_defs)
  have c: "get (attrib ?i) ''condition'' '''' = ''c''" by (simp add: get_def)
  have n: "length (filter (\<lambda>x. lower (tag x) = ''else'') (visited ?root)) = 1"
    by (simp add: is_leaf_tag_def eval_defs)
  have e: "emitted_all [] = []" by (rule emitted_all_Nil)
  show ?thesis
    using h6 h2' else_closes_branch
            [where fromstring = "?ps" and poml_content = "?txt" and root = "?root"
               and parent = "?root" and i = "?i" and el = "?el" and xs = "[]" and ms = "[]"
               and ys = "[]"
               and time_str = "''01:13:23 PM - 15:Sep:2025''" and output_filename = "''out.vfc''"
               and self = init, OF h0 h1 h2 h3 h4 h5 h6 h7 h8]
    unfolding a b c n e by simp
qed

text \<open>
  Two documents on which the claim as stated fails. An \<open>if\<close> and its sibling \<open>else\<close>
  inside a \<open>p\<close> are not visited: \<open><poml><p><if condition="c"/><else/></p></poml>\<close>
  gives \<open>output();\<close> and no \<open>bend\<close>. A line break in a text of the \<open>if\<close> branch puts
  a line \<open>bend();\<close> before the lines of the \<open>else\<close>, and the text then has two such
  lines for one \<open>else\<close>.
\<close>

theorem else_not_closing_counterexample:
  "Element ''p'' Map.empty None
      [Element ''if'' [''condition'' \<mapsto> ''c''] None [], Element ''else'' Map.empty None []]
     \<in> set (subelements (Element ''poml'' Map.empty None
          [Element ''p'' Map.empty None
             [Element ''if'' [''condition'' \<mapsto> ''c''] None [], Element ''else'' Map.empty None []]]))
   \<and> take 1 (drop 6 (result_lines (fst (parse
        (parser_of [(''<poml><p><if condition=\"c\"/><else/></p></poml>'',
           Inr (Element ''poml'' Map.empty None
          [Element ''p'' Map.empty None
             [Element ''if'' [''condition'' \<mapsto> ''c''] None [], Element ''else'' Map.empty None []]]))])
        ''01:13:23 PM - 15:Sep:2025'' ''<poml><p><if condition=\"c\"/><else/></p></poml>''
        ''out.vfc'' init)))) = [''output();'']
   \<and> control_tokens (result_lines (fst (parse
        (parser_of [(''<poml><p><if condition=\"c\"/><else/></p></poml>'',
           Inr (Element ''poml'' Map.empty None
          [Element ''p'' Map.empty None
             [Element ''if'' [''condition'' \<mapsto> ''c''] None [], Element ''else'' Map.empty None []]]))])
        ''01:13:23 PM - 15:Sep:2025'' ''<poml><p><if condition=\"c\"/><else/></p></poml>''
        ''out.vfc'' init))) = []
   \<and> take 7 (drop 6 (result_lines (fst (parse
        (parser_of [(''<poml><if condition=\"c\"><p>x'' @ [CHR 0x0A] @ ''bend();'' @ [CHR 0x0A]
                        @ ''y</p></if><else/></poml>'',
           Inr (Element ''poml'' Map.empty None
          [Element ''if'' [''condition'' \<mapsto> ''c''] None
             [Element ''p'' Map.empty (Some (''x'' @ [CHR 0x0A] @ ''bend();'' @ [CHR 0x0A] @ ''y'')) []],
           Element ''else'' Map.empty None []]))])
        ''01:13:23 PM - 15:Sep:2025''
        (''<poml><if condition=\"c\"><p>x'' @ [CHR 0x0A] @ ''bend();'' @ [CHR 0x0A]
                        @ ''y</p></if><else/></poml>'')
        ''out.vfc'' init))))
      = [''branch(if  condition=\"c\");'', ''path();'', ''output(x'', ''bend();'', ''y);'',
         ''path(else);'', ''bend();'']"
proof -
  let ?p1 = "Element ''p'' Map.empty None
      [Element ''if'' [''condition'' \<mapsto> ''c''] None [], Element ''else'' Map.empty None []]"
  let ?d1 = "Element ''poml'' Map.empty None [?p1]"
  let ?t1 = "''<poml><p><if condition=\"c\"/><else/></p></poml>''"
  let ?d2 = "Element ''poml'' Map.empty None
          [Element ''if'' [''condition'' \<mapsto> ''c''] None
             [Element ''p'' Map.empty (Some (''x'' @ [CHR 0x0A] @ ''bend();'' @ [CHR 0x0A] @ ''y'')) []],
           Element ''else'' Map.empty None []]"
  let ?t2 = "''<poml><if condition=\"c\"><p>x'' @ [CHR 0x0A] @ ''bend();'' @ [CHR 0x0A]
                        @ ''y</p></if><else/></poml>''"
  let ?H = "vfc_lines (add_header ''01:13:23 PM - 15:Sep:2025'' ''out.vfc'' init)"
  have p1: "parser_of [(?t1, Inr ?d1)] ?t1 = Inr ?d1" by (simp add: parser_of_def)
  have p2: "parser_of [(?t2, Inr ?d2)] ?t2 = Inr ?d2" by (simp add: parser_of_def)
  have m: "?p1 \<in> set (subelements ?d1)" by simp
  have e1: "concat (map output_lines (emitted ?d1)) = [''output();'']"
    by (simp add: emitted_def eval_defs output_lines_def)
  have e2: "concat (map output_lines (emitted ?d2))
            = [''branch(if  condition=\"c\");'', ''path();'', ''output(x'', ''bend();'', ''y);'',
               ''path(else);'', ''bend();'']"
    by (simp add: emitted_def eval_defs output_lines_def)
  have c1: "control_tokens [''output();''] = []" by (simp add: control_tokens_def token_defs)
  have hl: "length ?H = 6" by (rule header_length)
  have r1: "result_lines (fst (parse (parser_of [(?t1, Inr ?d1)])
              ''01:13:23 PM - 15:Sep:2025'' ?t1 ''out.vfc'' init))
            = ?H @ [''output();''] @ vfc_lines (add_footer init)"
    unfolding result_lines_parse [where fromstring = "parser_of [(?t1, Inr ?d1)]", OF p1]
      map_append concat_append header_lines footer_lines e1 ..
  have r2: "result_lines (fst (parse (parser_of [(?t2, Inr ?d2)])
              ''01:13:23 PM - 15:Sep:2025'' ?t2 ''out.vfc'' init))
            = ?H @ [''branch(if  condition=\"c\");'', ''path();'', ''output(x'', ''bend();'', ''y);'',
               ''path(else);'', ''bend();''] @ vfc_lines (add_footer init)"
    unfolding result_lines_parse [where fromstring = "parser_of [(?t2, Inr ?d2)]", OF p2]
      map_append concat_append header_lines footer_lines e2 ..
  have a: "take 1 (drop 6 (?H @ [''output();''] @ vfc_lines (add_footer init))) = [''output();'']"
    using hl by simp
  have b: "control_tokens (?H @ [''output();''] @ vfc_lines (add_footer init)) = []"
    unfolding control_tokens_append control_tokens_header control_tokens_footer c1 by simp
  have d: "take 7 (drop 6 (?H @ [''branch(if  condition=\"c\");'', ''path();'', ''output(x'',
               ''bend();'', ''y);'', ''path(else);'', ''bend();''] @ vfc_lines (add_footer init)))
           = [''branch(if  condition=\"c\");'', ''path();'', ''output(x'', ''bend();'', ''y);'',
               ''path(else);'', ''bend();'']"
    using hl by simp
  show ?thesis unfolding r1 r2 a b d using m by simp
qed

text \<open>
  Claim C3, for documents that contain no \<open>for\<close>, no \<open>if\<close> and no \<open>else\<close> element and
  copy no line break into the output, converted under a file name and a clock string
  without line break. The conversion succeeds and no line of the returned text begins
  with \<open>loop(\<close>, \<open>lend(\<close>, \<open>branch(\<close> or \<open>bend(\<close>.
\<close>

theorem no_control_tokens:
  assumes "fromstring poml_content = Inr root"
    and "''for'' \<notin> set (tags_of root)"
    and "''if'' \<notin> set (tags_of root)"
    and "''else'' \<notin> set (tags_of root)"
    and "line_free root" and "single_line output_filename" and "single_line time_str"
  shows "(\<exists>text. fst (parse fromstring time_str poml_content output_filename self) = Inr text)
     \<and> control_tokens
          (result_lines (fst (parse fromstring time_str poml_content output_filename self))) = []"
proof -
  have "length (filter is_loop_token (emitted root)) = 0"
    "length (filter is_lend_token (emitted root)) = 0"
    "length (filter is_branch_token (emitted root)) = 0"
    "length (filter is_bend_token (emitted root)) = 0"
    unfolding count_loop count_lend count_branch count_bend
    by (simp_all add: no_tag_no_visited assms)
  then have "control_tokens (emitted root) = []"
    by (intro control_tokens_empty) simp_all
  then show ?thesis
    unfolding result_lines_parse_single
                [where fromstring = fromstring, OF assms(1) assms(5) assms(6) assms(7)]
    using parse_returns [where fromstring = fromstring, OF assms(1)]
    by (simp add: control_tokens_append control_tokens_header control_tokens_footer)
qed

theorem no_control_tokens_witness:
  "line_free (Element ''poml'' Map.empty None
                 [Element ''let'' [''name'' \<mapsto> ''x'', ''value'' \<mapsto> ''1''] None [],
                  Element ''elseif'' Map.empty None [Element ''p'' Map.empty (Some ''q'') []]])
   \<and> single_line ''out.vfc'' \<and> single_line ''01:13:23 PM - 15:Sep:2025''
   \<and> (\<exists>text. fst (parse
        (parser_of [(''<poml><let name=\"x\" value=\"1\"/><elseif><p>q</p></elseif></poml>'',
               Inr (Element ''poml'' Map.empty None
                 [Element ''let'' [''name'' \<mapsto> ''x'', ''value'' \<mapsto> ''1''] None [],
                  Element ''elseif'' Map.empty None [Element ''p'' Map.empty (Some ''q'') []]]))])
        ''01:13:23 PM - 15:Sep:2025''
        ''<poml><let name=\"x\" value=\"1\"/><elseif><p>q</p></elseif></poml>''
        ''out.vfc'' init) = Inr text)
   \<and> control_tokens (result_lines (fst (parse
        (parser_of [(''<poml><let name=\"x\" value=\"1\"/><elseif><p>q</p></elseif></poml>'',
               Inr (Element ''poml'' Map.empty None
                 [Element ''let'' [''name'' \<mapsto> ''x'', ''value'' \<mapsto> ''1''] None [],
                  Element ''elseif'' Map.empty None [Element ''p'' Map.empty (Some ''q'') []]]))])
        ''01:13:23 PM - 15:Sep:2025''
        ''<poml><let name=\"x\" value=\"1\"/><elseif><p>q</p></elseif></poml>''
        ''out.vfc'' init))) = []"
proof -
  let ?doc = "Element ''poml'' Map.empty None
                 [Element ''let'' [''name'' \<mapsto> ''x'', ''value'' \<mapsto> ''1''] None [],
                  Element ''elseif'' Map.empty None [Element ''p'' Map.empty (Some ''q'') []]]"
  let ?txt = "''<poml><let name=\"x\" value=\"1\"/><elseif><p>q</p></elseif></poml>''"
  let ?ps = "parser_of [(?txt, Inr ?doc)]"
  have h1: "?ps ?txt = Inr ?doc" by (simp add: parser_of_def)
  have tg: "tags_of ?doc = [''poml'', ''let'', ''elseif'', ''p'']"
    by (simp add: tags_of_def eval_defs)
  have h2: "''for'' \<notin> set (tags_of ?doc)" unfolding tg by simp
  have h3: "''if'' \<notin> set (tags_of ?doc)" unfolding tg by simp
  have h4: "''else'' \<notin> set (tags_of ?doc)" unfolding tg by simp
  have h5: "line_free ?doc" by (simp add: eval_more eval_defs)
  have h6: "single_line ''out.vfc''" by (simp add: single_line_def)
  have h7: "single_line ''01:13:23 PM - 15:Sep:2025''" by (simp add: single_line_def)
  show ?thesis
    using h5 h6 h7 no_control_tokens
            [where fromstring = "?ps" and poml_content = "?txt" and root = "?doc"
               and time_str = "''01:13:23 PM - 15:Sep:2025''" and output_filename = "''out.vfc''"
               and self = init, OF h1 h2 h3 h4 h5 h6 h7]
    by blast
qed

text \<open>
  Three conversions on which the claim as stated fails, none with a \<open>for\<close> or an \<open>if\<close>
  element, each returning a text with the line \<open>bend();\<close>: the document
  \<open><poml><else/></poml>\<close>, since an \<open>else\<close> needs no \<open>if\<close> to be converted; a \<open>p\<close>
  whose text holds that line between two line breaks; and the empty document converted
  under a file name that holds a line break followed by \<open>bend();\<close>.
\<close>

theorem orphan_else_counterexample:
  "''for'' \<notin> set (tags_of (Element ''poml'' Map.empty None [Element ''else'' Map.empty None []]))
   \<and> ''if'' \<notin> set (tags_of (Element ''poml'' Map.empty None [Element ''else'' Map.empty None []]))
   \<and> control_tokens (result_lines (fst (parse
        (parser_of [(''<poml><else/></poml>'',
                  Inr (Element ''poml'' Map.empty None [Element ''else'' Map.empty None []]))])
        ''01:13:23 PM - 15:Sep:2025'' ''<poml><else/></poml>'' ''out.vfc'' init)))
      = [''bend();'']
   \<and> ''for'' \<notin> set (tags_of (Element ''poml'' Map.empty None
          [Element ''p'' Map.empty (Some (''a'' @ [CHR 0x0A] @ ''bend();'' @ [CHR 0x0A] @ ''b'')) []]))
   \<and> ''if'' \<notin> set (tags_of (Element ''poml'' Map.empty None
          [Element ''p'' Map.empty (Some (''a'' @ [CHR 0x0A] @ ''bend();'' @ [CHR 0x0A] @ ''b'')) []]))
   \<and> control_tokens (result_lines (fst (parse
        (parser_of [(''<poml><p>a'' @ [CHR 0x0A] @ ''bend();'' @ [CHR 0x0A] @ ''b</p></poml>'',
                  Inr (Element ''poml'' Map.empty None
          [Element ''p'' Map.empty (Some (''a'' @ [CHR 0x0A] @ ''bend();'' @ [CHR 0x0A] @ ''b'')) []]))])
        ''01:13:23 PM - 15:Sep:2025''
        (''<poml><p>a'' @ [CHR 0x0A] @ ''bend();'' @ [CHR 0x0A] @ ''b</p></poml>'') ''out.vfc'' init)))
      = [''bend();'']
   \<and> control_tokens (result_lines (fst (parse
        (parser_of [(''<poml/>'', Inr (Element ''poml'' Map.empty None []))])
        ''01:13:23 PM - 15:Sep:2025'' ''<poml/>'' (''a'' @ [CHR 0x0A] @ ''bend();'') init)))
      = [''bend();'']"
proof -
  let ?d1 = "Element ''poml'' Map.empty None [Element ''else'' Map.empty None []]"
  let ?d2 = "Element ''poml'' Map.empty None
          [Element ''p'' Map.empty (Some (''a'' @ [CHR 0x0A] @ ''bend();'' @ [CHR 0x0A] @ ''b'')) []]"
  let ?d3 = "Element ''poml'' Map.empty None []"
  let ?t2 = "''<poml><p>a'' @ [CHR 0x0A] @ ''bend();'' @ [CHR 0x0A] @ ''b</p></poml>''"
  have p1: "parser_of [(''<poml><else/></poml>'', Inr ?d1)] ''<poml><else/></poml>'' = Inr ?d1"
    by (simp add: parser_of_def)
  have p2: "parser_of [(?t2, Inr ?d2)] ?t2 = Inr ?d2"
    by (simp add: parser_of_def)
  have p3: "parser_of [(''<poml/>'', Inr ?d3)] ''<poml/>'' = Inr ?d3"
    by (simp add: parser_of_def)
  have tg1: "tags_of ?d1 = [''poml'', ''else'']" by (simp add: tags_of_def eval_defs)
  have tg2: "tags_of ?d2 = [''poml'', ''p'']" by (simp add: tags_of_def eval_defs)
  have e1: "concat (map output_lines (emitted ?d1)) = [''path(else);'', ''bend();'']"
    by (simp add: emitted_def eval_defs output_lines_def)
  have e2: "concat (map output_lines (emitted ?d2)) = [''output(a'', ''bend();'', ''b);'']"
    by (simp add: emitted_def eval_defs output_lines_def)
  have e3: "emitted ?d3 = []" by (simp add: emitted_def eval_defs)
  have h3: "control_tokens (concat (map output_lines
               (vfc_lines (add_header ''01:13:23 PM - 15:Sep:2025'' (''a'' @ [CHR 0x0A] @ ''bend();'') init))))
            = [''bend();'']"
    by (simp add: add_header_def init_def output_lines_def control_tokens_def token_defs)
  have c1: "control_tokens [''path(else);'', ''bend();''] = [''bend();'']"
    by (simp add: control_tokens_def token_defs)
  have c2: "control_tokens [''output(a'', ''bend();'', ''b);''] = [''bend();'']"
    by (simp add: control_tokens_def token_defs)
  have r1: "control_tokens (result_lines (fst (parse (parser_of [(''<poml><else/></poml>'', Inr ?d1)])
              ''01:13:23 PM - 15:Sep:2025'' ''<poml><else/></poml>'' ''out.vfc'' init))) = [''bend();'']"
    unfolding result_lines_parse [where fromstring = "parser_of [(''<poml><else/></poml>'', Inr ?d1)]", OF p1]
      map_append concat_append header_lines footer_lines e1 control_tokens_append
      control_tokens_header control_tokens_footer c1
    by simp
  have r2: "control_tokens (result_lines (fst (parse (parser_of [(?t2, Inr ?d2)])
              ''01:13:23 PM - 15:Sep:2025'' ?t2 ''out.vfc'' init))) = [''bend();'']"
    unfolding result_lines_parse [where fromstring = "parser_of [(?t2, Inr ?d2)]", OF p2]
      map_append concat_append header_lines footer_lines e2 control_tokens_append
      control_tokens_header control_tokens_footer c2
    by simp
  have r3: "control_tokens (result_lines (fst (parse (parser_of [(''<poml/>'', Inr ?d3)])
              ''01:13:23 PM - 15:Sep:2025'' ''<poml/>'' (''a'' @ [CHR 0x0A] @ ''bend();'') init))) = [''bend();'']"
    unfolding result_lines_parse [where fromstring = "parser_of [(''<poml/>'', Inr ?d3)]", OF p3]
      map_append concat_append footer_lines e3 control_tokens_append h3 control_tokens_footer
    by (simp add: control_tokens_def)
  show ?thesis unfolding tg1 tg2 using r1 r2 r3 by simp
qed

end
